theory Spec2Isabelle
  imports Main "HOL-Library.Sublist"
begin

section \<open>Strings\<close>

text \<open>
  The program is \<^verbatim>\<open>src/patch-rtl.js\<close>. A JavaScript string is modelled as a
  \<^typ>\<open>string\<close>, the list of its code units; the model covers the texts whose code units
  are below 256. A file's content is the string that \<^verbatim>\<open>readFileSync(p, "utf8")\<close>
  returns and \<^verbatim>\<open>writeFileSync\<close> stores: files are taken to be well-formed UTF-8, so
  that decoding a file and encoding the string again gives back its bytes, and two contents
  are byte-identical when these strings are equal.
\<close>

abbreviation nl :: char where
  "nl \<equiv> CHR 0x0A"

text \<open>\<^verbatim>\<open>const PATCH_START\<close>, \<^verbatim>\<open>const PATCH_END\<close>.\<close>

definition PATCH_START :: string where
  "PATCH_START = ''/* CLAUDE-CODE-RTL-FIX:START */''"

definition PATCH_END :: string where
  "PATCH_END = ''/* CLAUDE-CODE-RTL-FIX:END */''"

text \<open>
  \<^verbatim>\<open>s.indexOf(p)\<close>: the least index at which \<open>p\<close> occurs in \<open>s\<close>; the source's
  \<open>-1\<close> is \<open>None\<close>. \<^verbatim>\<open>s.includes(p)\<close> says whether there is one.
\<close>

fun indexOf :: "string \<Rightarrow> string \<Rightarrow> nat option" where
  "indexOf [] p = (if p = [] then Some 0 else None)"
| "indexOf (c # cs) p =
     (if prefix p (c # cs) then Some 0 else map_option Suc (indexOf cs p))"

definition includes_str :: "string \<Rightarrow> string \<Rightarrow> bool" where
  "includes_str s p = (indexOf s p \<noteq> None)"

text \<open>
  The number of positions of \<open>s\<close> at which \<open>p\<close> occurs, used to state the marker-count
  property.
\<close>

fun countOcc :: "string \<Rightarrow> string \<Rightarrow> nat" where
  "countOcc p [] = (if p = [] then 1 else 0)"
| "countOcc p (c # cs) = (if prefix p (c # cs) then 1 else 0) + countOcc p cs"

text \<open>
  \<^verbatim>\<open>s.replace(/\n+$/, "")\<close>: the regular expression matches at the leftmost position
  from which only line feeds follow up to the end of the input (at least one), and the match
  is removed.
\<close>

fun replace_trailing_newlines :: "string \<Rightarrow> string" where
  "replace_trailing_newlines [] = []"
| "replace_trailing_newlines (c # cs) =
     (if list_all (\<lambda>x. x = nl) (c # cs) then [] else c # replace_trailing_newlines cs)"

text \<open>\<^verbatim>\<open>lines.join("\n")\<close>.\<close>

fun join :: "string list \<Rightarrow> string" where
  "join [] = []"
| "join [l] = l"
| "join (l # ls) = l @ [nl] @ join ls"

section \<open>Class resolver\<close>

text \<open>
  The character classes of the regular expression
  \<^verbatim>\<open>\.NAME_([A-Za-z0-9]+)(?=[\s{.,:\[>~+])\<close>. \<open>is_space\<close> is \<^verbatim>\<open>\s\<close> on the code units
  below 256: tab, line feed, vertical tab, form feed, carriage return, space and the
  no-break space.
\<close>

definition is_alnum :: "char \<Rightarrow> bool" where
  "is_alnum c =
     (let n = (of_char c :: nat)
      in (65 \<le> n \<and> n \<le> 90) \<or> (97 \<le> n \<and> n \<le> 122) \<or> (48 \<le> n \<and> n \<le> 57))"

definition is_space :: "char \<Rightarrow> bool" where
  "is_space c = ((of_char c :: nat) \<in> {9, 10, 11, 12, 13, 32, 160})"

definition is_boundary :: "char \<Rightarrow> bool" where
  "is_boundary c = (is_space c \<or> c \<in> set ''{.,:[>~+'')"

text \<open>The lookahead \<^verbatim>\<open>(?=[\s{.,:\[>~+])\<close>: a next character exists and is a boundary.\<close>

definition lookahead :: "string \<Rightarrow> bool" where
  "lookahead s = (case s of [] \<Rightarrow> False | c # _ \<Rightarrow> is_boundary c)"

text \<open>
  The group \<^verbatim>\<open>([A-Za-z0-9]+)\<close> is greedy: it first takes the whole run of
  alphanumerics, and gives characters back one at a time, down to one, while the lookahead
  fails.
\<close>

fun backtrack :: "nat \<Rightarrow> string \<Rightarrow> string option" where
  "backtrack 0 s = None"
| "backtrack (Suc n) s =
     (if lookahead (drop (Suc n) s) then Some (take (Suc n) s) else backtrack n s)"

definition match_hash :: "string \<Rightarrow> string option" where
  "match_hash s = backtrack (length (takeWhile is_alnum s)) s"

text \<open>A match of the whole expression that starts at the head of \<open>s\<close>; the result is group 1.\<close>

definition match_at :: "string \<Rightarrow> string \<Rightarrow> string option" where
  "match_at name s =
     (let lit = ''.'' @ name @ ''_''
      in if prefix lit s then match_hash (drop (length lit) s) else None)"

text \<open>
  \<^verbatim>\<open>regex.exec(cssContent)\<close> on a regular expression object that was just created
  (\<open>lastIndex = 0\<close>): the leftmost match.
\<close>

fun regex_exec :: "string \<Rightarrow> string \<Rightarrow> string option" where
  "regex_exec name [] = match_at name []"
| "regex_exec name (c # cs) =
     (case match_at name (c # cs) of
        Some h \<Rightarrow> Some h
      | None \<Rightarrow> regex_exec name cs)"

definition patterns :: "string list" where
  "patterns =
     [''message'', ''messagesContainer'', ''chatContainer'', ''userMessageContainer'',
      ''userMessage'', ''timelineMessage'', ''emptyStateContent'', ''emptyStateText'',
      ''highlightedMessage'', ''slashCommandMessage'', ''slashCommandResultMessage'',
      ''interruptedMessage'', ''metaMessage'', ''progressContent'']"

type_synonym classMap = "string \<rightharpoonup> string"

definition extractClassMap :: "string \<Rightarrow> classMap" where
  "extractClassMap cssContent =
     fold (\<lambda>name classMap.
             case regex_exec name cssContent of
               Some h \<Rightarrow> classMap(name \<mapsto> h)
             | None \<Rightarrow> classMap)
          patterns Map.empty"

section \<open>Fragment synthesis\<close>

text \<open>
  \<^verbatim>\<open>classMap.key ? `.key_${classMap.key}` : '[class*="key_"]'\<close>. An absent property
  and the empty string are both falsy.
\<close>

definition truthy :: "string option \<Rightarrow> bool" where
  "truthy v = (case v of None \<Rightarrow> False | Some h \<Rightarrow> h \<noteq> [])"

definition fallback :: "string \<Rightarrow> string" where
  \<open>fallback key = ''[class*="'' @ key @ ''_"]''\<close>

definition selector :: "classMap \<Rightarrow> string \<Rightarrow> string" where
  "selector classMap key =
     (case classMap key of
        None \<Rightarrow> fallback key
      | Some h \<Rightarrow> if h = [] then fallback key else ''.'' @ key @ ''_'' @ h)"

definition rtl_lines :: "classMap \<Rightarrow> string list" where
  \<open>rtl_lines classMap =
     (let messageClass = selector classMap ''message'';
          userMsgClass = selector classMap ''userMessage'';
          userMsgContainerClass = selector classMap ''userMessageContainer'';
          timelineClass = selector classMap ''timelineMessage'';
          slashCmdClass = selector classMap ''slashCommandMessage'';
          slashCmdResultClass = selector classMap ''slashCommandResultMessage'';
          interruptedClass = selector classMap ''interruptedMessage'';
          progressClass = selector classMap ''progressContent''
      in
      [PATCH_START,
       '''',
       ''/*'',
       '' * RTL (Right-to-Left) text support for Claude Code'',
       '' * Supports Hebrew, Arabic, Persian, Urdu, and other RTL scripts.'',
       '' * Uses CSS unicode-bidi: plaintext for automatic direction detection'',
       '' * per-paragraph, so mixed LTR/RTL content renders correctly.'',
       '' */'',
       '''']
      @
      [''/* Auto-detect text direction on all message text content */'',
       messageClass @ '','',
       userMsgClass @ '','',
       userMsgContainerClass @ '','',
       timelineClass @ '','',
       slashCmdClass @ '','',
       slashCmdResultClass @ '','',
       interruptedClass @ '','',
       progressClass @ '','',
       ''[data-testid="assistant-message"] {'',
       ''  unicode-bidi: plaintext;'',
       ''  text-align: start;'',
       ''}'',
       '''',
       ''/* Fix user message container alignment for RTL content */'',
       messageClass @ userMsgContainerClass @ '' {'',
       ''  text-align: start;'',
       ''}'',
       '''',
       ''/* Ensure paragraphs and inline text respect auto-direction */'',
       messageClass @ '' p,'',
       messageClass @ '' li,'',
       messageClass @ '' span,'',
       messageClass @ '' div,'',
       ''[data-testid="assistant-message"] p,'',
       ''[data-testid="assistant-message"] li,'',
       ''[data-testid="assistant-message"] span,'',
       ''[data-testid="assistant-message"] div {'',
       ''  unicode-bidi: plaintext;'',
       ''  text-align: start;'',
       ''}'',
       '''',
       ''/* Preserve code blocks as LTR (code is always LTR) */'',
       messageClass @ '' pre,'',
       messageClass @ '' code,'',
       ''[data-testid="assistant-message"] pre,'',
       ''[data-testid="assistant-message"] code {'',
       ''  unicode-bidi: normal;'',
       ''  direction: ltr;'',
       ''  text-align: left;'',
       ''}'',
       '''',
       ''/* Timeline dot position: use logical properties so dot stays correct in RTL */'',
       timelineClass @ '' {'',
       ''  padding-inline-start: 30px;'',
       ''  padding-left: unset;'',
       ''}'',
       '''',
       timelineClass @ ''::before {'',
       ''  inset-inline-start: 9px;'',
       ''  left: unset;'',
       ''}'',
       '''',
       timelineClass @ ''::after {'',
       ''  inset-inline-start: 12px;'',
       ''  left: unset;'',
       ''}'',
       '''',
       ''/* Input area RTL support */'',
       ''[class*="inputContainer_"] textarea,'',
       ''[class*="inputContainer_"] [contenteditable] {'',
       ''  unicode-bidi: plaintext;'',
       ''  text-align: start;'',
       ''}'',
       '''',
       PATCH_END])\<close>

definition generateRtlCss :: "classMap \<Rightarrow> string" where
  "generateRtlCss classMap = join (rtl_lines classMap)"

section \<open>Patch lifecycle\<close>

text \<open>
  \<^verbatim>\<open>removePatchContent\<close>. \<^verbatim>\<open>substring(0, i)\<close> is \<open>take i\<close> and
  \<^verbatim>\<open>substring(j)\<close> is \<open>drop j\<close>, also when \<open>j\<close> is beyond the end.
\<close>

definition removePatchContent :: "string \<Rightarrow> string" where
  "removePatchContent cssContent =
     (case (indexOf cssContent PATCH_START, indexOf cssContent PATCH_END) of
        (Some startIdx, Some endIdx) \<Rightarrow>
          (let beforePatch = replace_trailing_newlines (take startIdx cssContent);
               afterPatch = drop (endIdx + length PATCH_END) cssContent
           in beforePatch @ afterPatch)
      | _ \<Rightarrow> cssContent)"

text \<open>
  The file system is a map from paths to the contents of the regular files that exist:
  \<^verbatim>\<open>existsSync p\<close> is \<open>files p \<noteq> None\<close>, \<^verbatim>\<open>writeFileSync\<close> and
  \<^verbatim>\<open>unlinkSync\<close> update the map. Each operation returns its result object and the
  file system it leaves. Input and output errors (a directory at the path, missing
  permissions) are outside the model.
\<close>

type_synonym files = "string \<rightharpoonup> string"

datatype apply_result =
    ApplyFailure string
  | ApplySuccess classMap string

datatype revert_result =
    RevertFailure string
  | RevertSuccess string

definition not_found :: "string \<Rightarrow> string" where
  "not_found cssFilePath = ''CSS file not found: '' @ cssFilePath"

definition unrecognized :: string where
  "unrecognized =
     ''Could not extract CSS class names from extension. The extension structure may have changed.''"

definition backup_of :: "string \<Rightarrow> string" where
  "backup_of cssFilePath = cssFilePath @ ''.rtl-backup''"

definition applyPatch :: "files \<Rightarrow> string \<Rightarrow> apply_result \<times> files" where
  "applyPatch files cssFilePath =
     (case files cssFilePath of
        None \<Rightarrow> (ApplyFailure (not_found cssFilePath), files)
      | Some content \<Rightarrow>
          (let cssContent =
                 (if includes_str content PATCH_START then removePatchContent content
                  else content);
               classMap = extractClassMap cssContent
           in if \<not> truthy (classMap ''message'') then (ApplyFailure unrecognized, files)
              else
                (let rtlCss = generateRtlCss classMap;
                     patchedContent = cssContent @ [nl] @ rtlCss;
                     backupPath = backup_of cssFilePath;
                     files1 =
                       (if files backupPath = None then files(backupPath \<mapsto> cssContent)
                        else files);
                     files2 = files1(cssFilePath \<mapsto> patchedContent)
                 in (ApplySuccess classMap backupPath, files2))))"

definition revertPatch :: "files \<Rightarrow> string \<Rightarrow> revert_result \<times> files" where
  "revertPatch files cssFilePath =
     (case files cssFilePath of
        None \<Rightarrow> (RevertFailure (not_found cssFilePath), files)
      | Some current \<Rightarrow>
          (let backupPath = backup_of cssFilePath
           in case files backupPath of
                Some original \<Rightarrow>
                  (RevertSuccess ''backup'',
                   (files(cssFilePath \<mapsto> original))(backupPath := None))
              | None \<Rightarrow>
                  (if includes_str current PATCH_START
                   then (RevertSuccess ''strip'',
                         files(cssFilePath \<mapsto> removePatchContent current))
                   else (RevertFailure ''No patch found to revert'', files))))"

definition checkPatch :: "files \<Rightarrow> string \<Rightarrow> bool" where
  "checkPatch files cssFilePath =
     (case files cssFilePath of
        None \<Rightarrow> False
      | Some content \<Rightarrow> includes_str content PATCH_START)"

section \<open>Notions used to state the properties\<close>

text \<open>
  The content \<open>applyPatch\<close> works on: the file's content, with the fragment excised when
  the start marker is present.
\<close>

definition working_copy :: "string \<Rightarrow> string" where
  "working_copy content =
     (if includes_str content PATCH_START then removePatchContent content else content)"

text \<open>The keys that \<open>generateRtlCss\<close> reads from the mapping.\<close>

definition synth_keys :: "string list" where
  "synth_keys =
     [''message'', ''userMessage'', ''userMessageContainer'', ''timelineMessage'',
      ''slashCommandMessage'', ''slashCommandResultMessage'', ''interruptedMessage'',
      ''progressContent'']"

text \<open>A mapping none of whose hashes contains a slash; every resolved mapping is one.\<close>

definition slash_free :: "classMap \<Rightarrow> bool" where
  "slash_free m = (\<forall>k h. m k = Some h \<longrightarrow> CHR ''/'' \<notin> set h)"

text \<open>The lines of the fragment between the two marker lines.\<close>

definition mid_lines_of :: "classMap \<Rightarrow> string list" where
  "mid_lines_of m = butlast (tl (rtl_lines m))"

text \<open>
  \<open>n\<close> consecutive calls of \<open>applyPatch\<close> on the same path, all of them successful;
  \<open>None\<close> when one of them fails.
\<close>

fun apply_times :: "nat \<Rightarrow> files \<Rightarrow> string \<Rightarrow> files option" where
  "apply_times 0 files p = Some files"
| "apply_times (Suc n) files p =
     (case applyPatch files p of
        (ApplySuccess _ _, files') \<Rightarrow> apply_times n files' p
      | (ApplyFailure _, _) \<Rightarrow> None)"

text \<open>
  The resolver as the specification words it: at index \<open>i\<close> of \<open>s\<close> there is an
  occurrence of \<^verbatim>\<open>.<key>_<hash>\<close> whose hash \<open>h\<close> is one or more alphanumerics
  and is immediately followed by a boundary character.
\<close>

definition occurrence :: "string \<Rightarrow> string \<Rightarrow> nat \<Rightarrow> string \<Rightarrow> bool" where
  "occurrence key s i h =
     (h \<noteq> [] \<and> list_all is_alnum h \<and> prefix (''.'' @ key @ ''_'' @ h) (drop i s) \<and>
      (case drop (i + length (''.'' @ key @ ''_'' @ h)) s of
         [] \<Rightarrow> False
       | c # _ \<Rightarrow> is_boundary c))"

section \<open>Substring search\<close>

lemma indexOf_None_iff: "indexOf s p = None \<longleftrightarrow> countOcc p s = 0"
  by (induction s) auto

lemma includes_str_iff: "includes_str s p \<longleftrightarrow> 0 < countOcc p s"
  by (simp add: includes_str_def indexOf_None_iff)

lemma prefix_sep:
  assumes "c \<notin> set p"
  shows "prefix p (a @ c # b) \<longleftrightarrow> prefix p a"
proof
  assume "prefix p (a @ c # b)"
  then consider "prefix p a" | us where "p = a @ us" and "prefix us (c # b)"
    unfolding prefix_append by blast
  then show "prefix p a"
  proof cases
    case 1
    then show ?thesis .
  next
    case 2
    show ?thesis
    proof (cases us)
      case Nil
      then show ?thesis using 2 by simp
    next
      case (Cons u us')
      then have "u = c" using 2(2) by simp
      then have "c \<in> set p" using 2(1) Cons by simp
      then show ?thesis using assms by simp
    qed
  qed
next
  assume "prefix p a" then show "prefix p (a @ c # b)" by (rule prefix_prefix)
qed

lemma countOcc_sep:
  assumes "c \<notin> set p" and "p \<noteq> []"
  shows "countOcc p (a @ c # b) = countOcc p a + countOcc p b"
proof (induction a)
  case Nil
  have "\<not> prefix p (c # b)"
    using assms by (cases p) auto
  then show ?case using assms by simp
next
  case (Cons x a)
  have "prefix p (x # a @ c # b) \<longleftrightarrow> prefix p (x # a)"
    using prefix_sep [OF assms(1), of "x # a" b] by simp
  then show ?case using Cons by simp
qed

lemma countOcc_join:
  assumes "nl \<notin> set p" and "p \<noteq> []"
  shows "countOcc p (join ls) = sum_list (map (countOcc p) ls)"
proof (induction ls rule: join.induct)
  case 1
  then show ?case using assms by simp
next
  case (2 l)
  then show ?case by simp
next
  case (3 l v va)
  then show ?case using countOcc_sep [OF assms, of l "join (v # va)"] by simp
qed

lemma indexOf_prefix: "indexOf (p @ b) p = Some 0"
proof (cases "p @ b")
  case Nil
  then show ?thesis by simp
next
  case (Cons x xs)
  have "prefix p (p @ b)" by simp
  then show ?thesis unfolding Cons by simp
qed

lemma countOcc_0_not_prefix: "countOcc p s = 0 \<Longrightarrow> \<not> prefix p s"
  by (cases s) auto

lemma indexOf_sep:
  assumes "c \<notin> set p" and "p \<noteq> []" and "countOcc p a = 0"
  shows "indexOf (a @ c # p @ b) p = Some (Suc (length a))"
  using assms(3)
proof (induction a)
  case Nil
  have "\<not> prefix p (c # p @ b)"
    using assms by (cases p) auto
  then show ?case by (simp add: indexOf_prefix)
next
  case (Cons x a)
  have "\<not> prefix p (x # a)"
    using Cons.prems by (rule countOcc_0_not_prefix)
  then have np: "\<not> prefix p (x # a @ c # p @ b)"
    using prefix_sep [OF assms(1), of "x # a" "p @ b"] by simp
  have "countOcc p a = 0" using Cons.prems by simp
  then have "indexOf (a @ c # p @ b) p = Some (Suc (length a))" by (rule Cons.IH)
  then show ?case using np by simp
qed

lemma replace_trailing_newlines_snoc:
  "replace_trailing_newlines (b @ [nl]) = replace_trailing_newlines b"
  by (induction b) simp_all

lemma countOcc_hd:
  assumes "p \<noteq> []" and "hd p \<notin> set l"
  shows "countOcc p l = 0"
  using assms(2)
proof (induction l)
  case Nil
  then show ?case using assms(1) by simp
next
  case (Cons x l)
  have "\<not> prefix p (x # l)"
    using assms(1) Cons.prems by (cases p) auto
  then show ?case using Cons by simp
qed

section \<open>Facts about the resolver\<close>

lemma alnum_not_boundary: "is_alnum c \<Longrightarrow> \<not> is_boundary c"
  by (auto simp: is_alnum_def is_boundary_def is_space_def Let_def)

lemma alnum_not_slash: "is_alnum c \<Longrightarrow> c \<noteq> CHR ''/''"
  by (auto simp: is_alnum_def Let_def)

lemma lookahead_in_run:
  assumes "k < length (takeWhile is_alnum s)"
  shows "\<not> lookahead (drop k s)"
proof -
  have k: "k < length s"
    using assms length_takeWhile_le [of is_alnum s] by simp
  have "is_alnum (s ! k)"
    using assms by (metis nth_mem set_takeWhileD takeWhile_nth)
  then have "\<not> is_boundary (s ! k)" by (rule alnum_not_boundary)
  moreover have "drop k s = s ! k # drop (Suc k) s"
    using k by (simp add: Cons_nth_drop_Suc)
  ultimately show ?thesis by (simp add: lookahead_def)
qed

lemma backtrack_in_run:
  "n < length (takeWhile is_alnum s) \<Longrightarrow> backtrack n s = None"
proof (induction n)
  case 0
  then show ?case by simp
next
  case (Suc n)
  then show ?case using lookahead_in_run [of "Suc n" s] by simp
qed

lemma match_hash_eq:
  "match_hash s =
     (if takeWhile is_alnum s \<noteq> [] \<and> lookahead (dropWhile is_alnum s)
      then Some (takeWhile is_alnum s) else None)"
proof (cases "length (takeWhile is_alnum s)")
  case 0
  then show ?thesis by (simp add: match_hash_def)
next
  case (Suc k)
  have t: "take (Suc k) s = takeWhile is_alnum s"
    using Suc by (metis takeWhile_eq_take)
  have d: "drop (Suc k) s = dropWhile is_alnum s"
    using Suc by (metis dropWhile_eq_drop)
  have b: "backtrack k s = None"
    using Suc by (simp add: backtrack_in_run)
  have ne: "takeWhile is_alnum s \<noteq> []"
    using Suc by auto
  show ?thesis
    by (simp add: match_hash_def Suc t d b ne)
qed

lemma match_at_Some:
  "match_at name s = Some h \<Longrightarrow> h \<noteq> [] \<and> (\<forall>c\<in>set h. is_alnum c)"
  by (auto simp: match_at_def match_hash_eq Let_def split: if_splits dest: set_takeWhileD)

lemma regex_exec_Some:
  "regex_exec name s = Some h \<Longrightarrow> h \<noteq> [] \<and> (\<forall>c\<in>set h. is_alnum c)"
proof (induction s)
  case Nil
  then show ?case using match_at_Some [of name "[]" h] by simp
next
  case (Cons c cs)
  then show ?case using match_at_Some [of name "c # cs" h]
    by (auto split: option.splits)
qed

lemma fold_resolve:
  "fold (\<lambda>name classMap. case g name of Some h \<Rightarrow> classMap(name \<mapsto> h) | None \<Rightarrow> classMap) ks m k
   = (if k \<in> set ks then (case g k of Some h \<Rightarrow> Some h | None \<Rightarrow> m k) else m k)"
  by (induction ks arbitrary: m) (auto split: option.splits)

lemma extractClassMap_apply:
  "extractClassMap s k = (if k \<in> set patterns then regex_exec k s else None)"
  unfolding extractClassMap_def fold_resolve by (simp split: option.splits)

lemma extractClassMap_Some:
  "extractClassMap s k = Some h \<Longrightarrow> h \<noteq> [] \<and> (\<forall>c\<in>set h. is_alnum c)"
  using regex_exec_Some [of k s h] by (simp add: extractClassMap_apply split: if_splits)

lemma truthy_extract: "truthy (extractClassMap s k) \<longleftrightarrow> extractClassMap s k \<noteq> None"
  using extractClassMap_Some [of s k] by (auto simp: truthy_def split: option.splits)

section \<open>Markers in the synthesized fragment\<close>

lemma selector_slash_free:
  "slash_free m \<Longrightarrow> CHR ''/'' \<notin> set key \<Longrightarrow> CHR ''/'' \<notin> set (selector m key)"
  by (auto simp: selector_def fallback_def slash_free_def split: option.splits)

lemma countOcc_marker_prefix_slash:
  "CHR ''/'' \<notin> set l \<Longrightarrow> countOcc ''/* C'' l = 0"
  by (rule countOcc_hd) simp_all

lemma mid_lines:
  assumes "slash_free m"
  shows "sum_list (map (countOcc ''/* C'') (butlast (tl (rtl_lines m)))) = 0"
  using assms
  by (simp add: rtl_lines_def Let_def selector_slash_free countOcc_marker_prefix_slash)

lemma rtl_lines_shape: "rtl_lines m = PATCH_START # mid_lines_of m @ [PATCH_END]"
  by (simp add: mid_lines_of_def rtl_lines_def Let_def)

lemma mid_lines_nonempty: "mid_lines_of m \<noteq> []"
  by (simp add: mid_lines_of_def rtl_lines_def Let_def)

lemma countOcc_prefix_0:
  assumes "prefix q p" and "countOcc q l = 0"
  shows "countOcc p l = 0"
  using assms(2)
proof (induction l)
  case Nil
  then show ?case using assms(1) by (auto split: if_splits)
next
  case (Cons x l)
  have "\<not> prefix q (x # l)" using Cons.prems by (rule countOcc_0_not_prefix)
  then have "\<not> prefix p (x # l)" using assms(1) by (meson prefix_order.trans)
  moreover have "countOcc q l = 0" using Cons.prems by simp
  ultimately show ?case using Cons.IH by simp
qed

lemma mid_lines_no_marker:
  assumes "slash_free m" and "l \<in> set (mid_lines_of m)" and "prefix ''/* C'' p"
  shows "countOcc p l = 0"
proof -
  have "countOcc ''/* C'' l = 0"
    using mid_lines [OF assms(1)] assms(2) by (simp add: mid_lines_of_def)
  with assms(3) show ?thesis by (rule countOcc_prefix_0)
qed

lemma join_Cons: "ls \<noteq> [] \<Longrightarrow> join (l # ls) = l @ nl # join ls"
  by (cases ls) simp_all

lemma join_snoc: "ls \<noteq> [] \<Longrightarrow> join (ls @ [l]) = join ls @ nl # l"
  by (induction ls rule: join.induct) simp_all

lemma START_facts:
  "nl \<notin> set PATCH_START" "PATCH_START \<noteq> []" "prefix ''/* C'' PATCH_START"
  "countOcc PATCH_START PATCH_START = 1" "countOcc PATCH_END PATCH_START = 0"
  by (simp_all add: PATCH_START_def PATCH_END_def)

lemma END_facts:
  "nl \<notin> set PATCH_END" "PATCH_END \<noteq> []" "prefix ''/* C'' PATCH_END"
  "countOcc PATCH_END PATCH_END = 1" "countOcc PATCH_START PATCH_END = 0"
  by (simp_all add: PATCH_START_def PATCH_END_def)

lemma sum_mid_0:
  assumes "slash_free m" and "prefix ''/* C'' p"
  shows "sum_list (map (countOcc p) (mid_lines_of m)) = 0"
  using mid_lines_no_marker [OF assms(1) _ assms(2)] by simp

lemma countOcc_START_fragment:
  assumes "slash_free m"
  shows "countOcc PATCH_START (generateRtlCss m) = 1"
  by (simp add: generateRtlCss_def rtl_lines_shape countOcc_join START_facts END_facts
      sum_mid_0 [OF assms])

lemma countOcc_END_fragment:
  assumes "slash_free m"
  shows "countOcc PATCH_END (generateRtlCss m) = 1"
  by (simp add: generateRtlCss_def rtl_lines_shape countOcc_join START_facts END_facts
      sum_mid_0 [OF assms])

lemma removePatchContent_append:
  assumes "slash_free m" and "countOcc PATCH_START B = 0" and "countOcc PATCH_END B = 0"
  shows "removePatchContent (B @ [nl] @ generateRtlCss m) = replace_trailing_newlines B"
proof -
  let ?mid = "mid_lines_of m"
  let ?w = "B @ [nl] @ generateRtlCss m"
  have g1: "generateRtlCss m = PATCH_START @ nl # join (?mid @ [PATCH_END])"
    by (simp add: generateRtlCss_def rtl_lines_shape join_Cons)
  have g2: "generateRtlCss m = join (PATCH_START # ?mid) @ nl # PATCH_END"
    using join_snoc [of "PATCH_START # ?mid" PATCH_END]
    by (simp add: generateRtlCss_def rtl_lines_shape)
  have w1: "?w = B @ nl # PATCH_START @ (nl # join (?mid @ [PATCH_END]))"
    by (simp add: g1)
  have w2: "?w = (B @ nl # join (PATCH_START # ?mid)) @ nl # PATCH_END @ []"
    by (simp add: g2)
  have s: "indexOf ?w PATCH_START = Some (Suc (length B))"
    unfolding w1 using START_facts(1,2) assms(2) by (rule indexOf_sep)
  have "countOcc PATCH_END (join (PATCH_START # ?mid)) = 0"
    by (simp add: countOcc_join END_facts START_facts sum_mid_0 [OF assms(1)])
  then have "countOcc PATCH_END (B @ nl # join (PATCH_START # ?mid)) = 0"
    using assms(3) by (simp add: countOcc_sep END_facts)
  then have e: "indexOf ?w PATCH_END = Some (Suc (length (B @ nl # join (PATCH_START # ?mid))))"
    unfolding w2 using END_facts(1,2) by (intro indexOf_sep)
  have t: "take (Suc (length B)) ?w = B @ [nl]"
    by simp
  have d: "drop (Suc (length (B @ nl # join (PATCH_START # ?mid))) + length PATCH_END) ?w = []"
    unfolding w2 by simp
  show ?thesis
    unfolding removePatchContent_def s e
    by (simp only: option.case prod.case Let_def t d replace_trailing_newlines_snoc append_Nil2)
qed

section \<open>Revert by strip on a truncated fragment\<close>

lemma removePatchContent_no_end:
  "\<not> includes_str c PATCH_END \<Longrightarrow> removePatchContent c = c"
  by (simp add: removePatchContent_def includes_str_def split: option.splits)

text \<open>
  C10: for an existing file with no backup whose content has the start marker but not the
  end marker, \<open>revertPatch\<close> reports success with method \<open>strip\<close>, the file system is
  left as it was (the content written back is the content read), the start marker is still
  in the file and \<open>checkPatch\<close> still reports the file as patched.
\<close>

theorem revert_strip_truncated_fragment:
  assumes "files p = Some c" and "files (backup_of p) = None"
    and "includes_str c PATCH_START" and "\<not> includes_str c PATCH_END"
  shows "fst (revertPatch files p) = RevertSuccess ''strip''
       \<and> snd (revertPatch files p) = files
       \<and> snd (revertPatch files p) p = Some c
       \<and> includes_str c PATCH_START
       \<and> checkPatch (snd (revertPatch files p)) p"
proof -
  have r: "removePatchContent c = c"
    using assms(4) by (rule removePatchContent_no_end)
  have upd: "files(p \<mapsto> c) = files"
    using assms(1) by (simp add: fun_upd_idem)
  have rv: "revertPatch files p = (RevertSuccess ''strip'', files)"
    using assms(1,2,3) by (simp add: revertPatch_def r upd)
  show ?thesis
    using assms(1,3) by (simp add: rv checkPatch_def)
qed

theorem revert_strip_truncated_fragment_witness:
  "[''index.css'' \<mapsto> ''.message_A{}'' @ PATCH_START] ''index.css''
     = Some (''.message_A{}'' @ PATCH_START)
   \<and> [''index.css'' \<mapsto> ''.message_A{}'' @ PATCH_START] (backup_of ''index.css'') = None
   \<and> includes_str (''.message_A{}'' @ PATCH_START) PATCH_START
   \<and> \<not> includes_str (''.message_A{}'' @ PATCH_START) PATCH_END
   \<and> fst (revertPatch [''index.css'' \<mapsto> ''.message_A{}'' @ PATCH_START] ''index.css'')
     = RevertSuccess ''strip''
   \<and> snd (revertPatch [''index.css'' \<mapsto> ''.message_A{}'' @ PATCH_START] ''index.css'')
         ''index.css''
     = Some (''.message_A{}'' @ PATCH_START)
   \<and> checkPatch
         (snd (revertPatch [''index.css'' \<mapsto> ''.message_A{}'' @ PATCH_START] ''index.css''))
         ''index.css''"
proof -
  let ?c = "''.message_A{}'' @ PATCH_START"
  let ?f = "[''index.css'' \<mapsto> ?c]"
  have h1: "?f ''index.css'' = Some ?c"
    by simp
  have h2: "?f (backup_of ''index.css'') = None"
    by (simp add: backup_of_def)
  have h3: "includes_str ?c PATCH_START"
    by (simp add: includes_str_def PATCH_START_def)
  have h4: "\<not> includes_str ?c PATCH_END"
    by (simp add: includes_str_def PATCH_START_def PATCH_END_def)
  show ?thesis
    using h1 h2 h3 h4 revert_strip_truncated_fragment [OF h1 h2 h3 h4] by blast
qed

section \<open>Facts about the lifecycle operations\<close>

lemma backup_of_neq: "backup_of p \<noteq> p"
  by (simp add: backup_of_def)

lemma slash_free_extract: "slash_free (extractClassMap s)"
  unfolding slash_free_def
  using extractClassMap_Some alnum_not_slash by blast

lemma applyPatch_failure:
  assumes "files p = Some c" and "\<not> truthy (extractClassMap (working_copy c) ''message'')"
  shows "applyPatch files p = (ApplyFailure unrecognized, files)"
  using assms by (simp add: applyPatch_def working_copy_def Let_def)

lemma applyPatch_success:
  assumes "files p = Some c" and "truthy (extractClassMap (working_copy c) ''message'')"
  shows "applyPatch files p =
     (ApplySuccess (extractClassMap (working_copy c)) (backup_of p),
      (if files (backup_of p) = None then files(backup_of p \<mapsto> working_copy c) else files)
        (p \<mapsto> working_copy c @ [nl] @ generateRtlCss (extractClassMap (working_copy c))))"
  using assms by (simp add: applyPatch_def working_copy_def Let_def)

lemma revertPatch_backup:
  assumes "files p = Some c" and "files (backup_of p) = Some b"
  shows "revertPatch files p = (RevertSuccess ''backup'', (files(p \<mapsto> b))(backup_of p := None))"
  using assms by (simp add: revertPatch_def Let_def)

lemma working_copy_unpatched:
  "\<not> (includes_str c PATCH_START \<and> includes_str c PATCH_END) \<Longrightarrow> working_copy c = c"
  by (auto simp: working_copy_def removePatchContent_no_end)

lemma apply_then_revert:
  assumes "files p = Some c" and "files (backup_of p) = None"
    and "truthy (extractClassMap (working_copy c) ''message'')"
  shows "revertPatch (snd (applyPatch files p)) p =
           (RevertSuccess ''backup'', files(p \<mapsto> working_copy c))"
proof -
  let ?w = "working_copy c"
  let ?files1 = "(files(backup_of p \<mapsto> ?w))(p \<mapsto> ?w @ [nl] @ generateRtlCss (extractClassMap ?w))"
  have a: "snd (applyPatch files p) = ?files1"
    using applyPatch_success [of files p c, OF assms(1,3)] assms(2) by simp
  have "revertPatch ?files1 p = (RevertSuccess ''backup'', (?files1(p \<mapsto> ?w))(backup_of p := None))"
    by (rule revertPatch_backup) (simp_all add: backup_of_neq)
  moreover have "(?files1(p \<mapsto> ?w))(backup_of p := None) = files(p \<mapsto> ?w)"
    using assms(2) by (auto simp: fun_eq_iff backup_of_neq)
  ultimately show ?thesis by (simp add: a)
qed

lemma round_trip:
  assumes "countOcc PATCH_START C = 0" and "countOcc PATCH_END C = 0"
  shows "removePatchContent (C @ [nl] @ generateRtlCss (extractClassMap C))
           = replace_trailing_newlines C"
  using slash_free_extract assms by (rule removePatchContent_append)

lemma regex_exec_head:
  "match_at name (c # cs) = Some h \<Longrightarrow> regex_exec name (c # cs) = Some h"
  by simp

lemma message_A: "regex_exec ''message'' (''.message_A{}'' @ r) = Some ''A''"
  by (simp add: match_at_def match_hash_eq lookahead_def is_alnum_def is_boundary_def)

lemma extract_message_A: "extractClassMap (''.message_A{}'' @ r) ''message'' = Some ''A''"
  by (simp only: extractClassMap_apply message_A) (simp add: patterns_def)

lemma includes_patched:
  assumes "slash_free m" and "countOcc PATCH_START B = 0"
  shows "countOcc PATCH_START (B @ [nl] @ generateRtlCss m) = 1"
  using assms by (simp add: countOcc_sep START_facts countOcc_START_fragment)

lemma working_copy_patched:
  assumes "slash_free m" and "countOcc PATCH_START B = 0" and "countOcc PATCH_END B = 0"
  shows "working_copy (B @ [nl] @ generateRtlCss m) = replace_trailing_newlines B"
  using includes_patched [OF assms(1,2)] removePatchContent_append [OF assms]
  by (simp add: working_copy_def includes_str_iff)

section \<open>Excision after synthesis-and-append\<close>

text \<open>
  C1: the round trip does not hold at a content that ends in a line feed. The content
  \<^verbatim>\<open>.message_A{}\n\<close> has neither marker and resolves \<open>message\<close>, and excising
  the fragment from the appended text gives \<^verbatim>\<open>.message_A{}\<close>, which has lost the
  final line feed. For every marker-free content \<open>round_trip\<close> gives the result, the
  content without its trailing line feeds, and \<open>round_trip_exact\<close> the round trip when
  the content does not end in a line feed.
\<close>

theorem round_trip_trailing_newline:
  "countOcc PATCH_START (''.message_A{}'' @ [nl]) = 0
   \<and> countOcc PATCH_END (''.message_A{}'' @ [nl]) = 0
   \<and> extractClassMap (''.message_A{}'' @ [nl]) ''message'' = Some ''A''
   \<and> removePatchContent
         ((''.message_A{}'' @ [nl]) @ [nl] @ generateRtlCss (extractClassMap (''.message_A{}'' @ [nl])))
       = ''.message_A{}''
   \<and> removePatchContent
         ((''.message_A{}'' @ [nl]) @ [nl] @ generateRtlCss (extractClassMap (''.message_A{}'' @ [nl])))
       \<noteq> ''.message_A{}'' @ [nl]"
proof -
  have s: "countOcc PATCH_START (''.message_A{}'' @ [nl]) = 0"
    by (simp add: PATCH_START_def)
  have e: "countOcc PATCH_END (''.message_A{}'' @ [nl]) = 0"
    by (simp add: PATCH_END_def)
  have r: "replace_trailing_newlines (''.message_A{}'' @ [nl]) = ''.message_A{}''"
    by simp
  show ?thesis
    using s e extract_message_A [of "[nl]"] round_trip [OF s e] by (simp add: r)
qed

section \<open>Apply on unrecognized input\<close>

text \<open>
  C2: when the file exists and the content \<open>applyPatch\<close> works on (the file's content,
  with the fragment excised if the start marker is present) gives no \<open>message\<close> entry,
  \<open>applyPatch\<close> returns the unrecognized-format failure and leaves every file, the
  backup path included, as it was.
\<close>

theorem apply_fails_closed:
  assumes "files p = Some c" and "extractClassMap (working_copy c) ''message'' = None"
  shows "applyPatch files p = (ApplyFailure unrecognized, files)"
  using assms applyPatch_failure [of files p c] by (simp add: truthy_def)

theorem apply_fails_closed_witness:
  "[''index.css'' \<mapsto> ''.foo{color:red}''] ''index.css'' = Some ''.foo{color:red}''
   \<and> extractClassMap (working_copy ''.foo{color:red}'') ''message'' = None
   \<and> applyPatch [''index.css'' \<mapsto> ''.foo{color:red}''] ''index.css''
     = (ApplyFailure unrecognized, [''index.css'' \<mapsto> ''.foo{color:red}''])"
proof -
  have h1: "[''index.css'' \<mapsto> ''.foo{color:red}''] ''index.css'' = Some ''.foo{color:red}''"
    by simp
  have w: "working_copy ''.foo{color:red}'' = ''.foo{color:red}''"
    by (simp add: working_copy_def includes_str_def PATCH_START_def)
  have h2: "extractClassMap (working_copy ''.foo{color:red}'') ''message'' = None"
    unfolding w by (simp add: extractClassMap_apply match_at_def)
  show ?thesis
    using h1 h2
      apply_fails_closed [of "[''index.css'' \<mapsto> ''.foo{color:red}'']" "''index.css''"
        "''.foo{color:red}''", OF h1 h2]
    by blast
qed

section \<open>Apply, then revert\<close>

text \<open>
  C3, amended: for a file with content \<open>c\<close> that has no backup, lacks at least one of
  the two markers and resolves \<open>message\<close>, \<open>applyPatch\<close> succeeds, the following
  \<open>revertPatch\<close> reports the method \<open>backup\<close>, the file's content is \<open>c\<close> again
  and the backup no longer exists; the whole file system is as before.
\<close>

theorem apply_then_revert_restores:
  assumes "files p = Some c" and "files (backup_of p) = None"
    and "\<not> (includes_str c PATCH_START \<and> includes_str c PATCH_END)"
    and "extractClassMap c ''message'' \<noteq> None"
  shows "fst (applyPatch files p) = ApplySuccess (extractClassMap c) (backup_of p)
       \<and> fst (revertPatch (snd (applyPatch files p)) p) = RevertSuccess ''backup''
       \<and> snd (revertPatch (snd (applyPatch files p)) p) p = Some c
       \<and> snd (revertPatch (snd (applyPatch files p)) p) (backup_of p) = None
       \<and> snd (revertPatch (snd (applyPatch files p)) p) = files"
proof -
  have w: "working_copy c = c"
    using assms(3) by (rule working_copy_unpatched)
  have t: "truthy (extractClassMap (working_copy c) ''message'')"
    using assms(4) by (simp add: w truthy_extract)
  have "files(p \<mapsto> c) = files"
    using assms(1) by (simp add: fun_upd_idem)
  then have "revertPatch (snd (applyPatch files p)) p = (RevertSuccess ''backup'', files)"
    using apply_then_revert [of files p c, OF assms(1,2) t] by (simp add: w)
  then show ?thesis
    using assms(1,2) applyPatch_success [of files p c, OF assms(1) t] by (simp add: w)
qed

theorem apply_then_revert_restores_witness:
  "[''index.css'' \<mapsto> ''.message_A{}''] ''index.css'' = Some ''.message_A{}''
   \<and> [''index.css'' \<mapsto> ''.message_A{}''] (backup_of ''index.css'') = None
   \<and> \<not> (includes_str ''.message_A{}'' PATCH_START \<and> includes_str ''.message_A{}'' PATCH_END)
   \<and> extractClassMap ''.message_A{}'' ''message'' \<noteq> None
   \<and> fst (revertPatch (snd (applyPatch [''index.css'' \<mapsto> ''.message_A{}''] ''index.css''))
          ''index.css'') = RevertSuccess ''backup''
   \<and> snd (revertPatch (snd (applyPatch [''index.css'' \<mapsto> ''.message_A{}''] ''index.css''))
          ''index.css'') = [''index.css'' \<mapsto> ''.message_A{}'']"
proof -
  let ?f = "[''index.css'' \<mapsto> ''.message_A{}'']"
  have h1: "?f ''index.css'' = Some ''.message_A{}''"
    by simp
  have h2: "?f (backup_of ''index.css'') = None"
    by (simp add: backup_of_def)
  have h3: "\<not> (includes_str ''.message_A{}'' PATCH_START \<and> includes_str ''.message_A{}'' PATCH_END)"
    by (simp add: includes_str_def PATCH_START_def)
  have h4: "extractClassMap ''.message_A{}'' ''message'' \<noteq> None"
    using extract_message_A [of "[]"] by simp
  show ?thesis
    using h1 h2 h3 h4
      apply_then_revert_restores [of ?f "''index.css''" "''.message_A{}''", OF h1 h2 h3 h4]
    by blast
qed

text \<open>
  When the content already holds a fragment and there is no backup, the backup that
  \<open>applyPatch\<close> writes is the excised content, and \<open>revertPatch\<close> restores that: the
  content before the two calls is not restored.
\<close>

theorem apply_then_revert_patched_counterexample:
  "[''index.css'' \<mapsto> ''.message_A{}'' @ [nl] @ generateRtlCss [''message'' \<mapsto> ''A'']]
       (backup_of ''index.css'') = None
   \<and> extractClassMap (''.message_A{}'' @ [nl] @ generateRtlCss [''message'' \<mapsto> ''A''])
       ''message'' = Some ''A''
   \<and> snd (revertPatch
          (snd (applyPatch
             [''index.css'' \<mapsto> ''.message_A{}'' @ [nl] @ generateRtlCss [''message'' \<mapsto> ''A'']]
             ''index.css''))
          ''index.css'') ''index.css''
       = Some ''.message_A{}''
   \<and> ''.message_A{}'' \<noteq> ''.message_A{}'' @ [nl] @ generateRtlCss [''message'' \<mapsto> ''A'']"
proof -
  let ?c = "''.message_A{}'' @ [nl] @ generateRtlCss [''message'' \<mapsto> ''A'']"
  let ?f = "[''index.css'' \<mapsto> ?c]"
  have sf: "slash_free [''message'' \<mapsto> ''A'']"
    by (simp add: slash_free_def)
  have s: "countOcc PATCH_START ''.message_A{}'' = 0"
    by (simp add: PATCH_START_def)
  have e: "countOcc PATCH_END ''.message_A{}'' = 0"
    by (simp add: PATCH_END_def)
  have w: "working_copy ?c = ''.message_A{}''"
    using working_copy_patched [OF sf s e] by simp
  have h1: "?f ''index.css'' = Some ?c"
    by simp
  have h2: "?f (backup_of ''index.css'') = None"
    by (simp add: backup_of_def)
  have m: "extractClassMap ''.message_A{}'' ''message'' = Some ''A''"
    using extract_message_A [of "[]"] by simp
  have t: "truthy (extractClassMap (working_copy ?c) ''message'')"
    unfolding w m by (simp add: truthy_def)
  have "revertPatch (snd (applyPatch ?f ''index.css'')) ''index.css''
          = (RevertSuccess ''backup'', ?f(''index.css'' \<mapsto> working_copy ?c))"
    using h1 h2 t by (rule apply_then_revert)
  then have "snd (revertPatch (snd (applyPatch ?f ''index.css'')) ''index.css'') ''index.css''
          = Some ''.message_A{}''"
    by (simp only: w snd_conv fun_upd_same)
  then show ?thesis
    using h2 extract_message_A [of "[nl] @ generateRtlCss [''message'' \<mapsto> ''A'']"] by simp
qed

section \<open>Repeated application\<close>

lemma countOcc_Nil_pos: "0 < countOcc [] s"
  by (cases s) simp_all

lemma countOcc_append_le: "countOcc p a \<le> countOcc p (a @ b)"
proof (induction a)
  case Nil
  then show ?case using countOcc_Nil_pos [of b] by (cases "p = []") simp_all
next
  case (Cons x a)
  have "prefix p (x # a) \<Longrightarrow> prefix p (x # a @ b)"
    using prefix_prefix [of p "x # a" b] by simp
  then show ?case using Cons by simp
qed

lemma replace_trailing_newlines_prefix: "prefix (replace_trailing_newlines w) w"
  by (induction w) simp_all

lemma countOcc_replace_trailing_newlines:
  assumes "countOcc p w = 0"
  shows "countOcc p (replace_trailing_newlines w) = 0"
proof -
  obtain t where "w = replace_trailing_newlines w @ t"
    using replace_trailing_newlines_prefix [of w] by (auto elim: prefixE)
  then have "countOcc p (replace_trailing_newlines w) \<le> countOcc p w"
    using countOcc_append_le [of p "replace_trailing_newlines w" t] by simp
  with assms show ?thesis by simp
qed

lemma replace_trailing_newlines_id:
  "w = [] \<or> last w \<noteq> nl \<Longrightarrow> replace_trailing_newlines w = w"
proof (induction w)
  case Nil
  then show ?case by simp
next
  case (Cons x w)
  have l: "last (x # w) \<noteq> nl"
    using Cons.prems by simp
  have "last (x # w) \<in> set (x # w)"
    by (rule last_in_set) simp
  then have n: "\<not> list_all (\<lambda>c. c = nl) (x # w)"
    using l unfolding list_all_iff by blast
  have "w = [] \<or> last w \<noteq> nl"
    using l by (cases w) simp_all
  then have "replace_trailing_newlines w = w"
    by (rule Cons.IH)
  then show ?case using n by simp
qed

lemma round_trip_exact:
  assumes "countOcc PATCH_START C = 0" and "countOcc PATCH_END C = 0"
    and "C = [] \<or> last C \<noteq> nl"
  shows "removePatchContent (C @ [nl] @ generateRtlCss (extractClassMap C)) = C"
  using round_trip [OF assms(1,2)] replace_trailing_newlines_id [OF assms(3)] by simp

lemma indexOf_END_patched:
  assumes "slash_free m" and "countOcc PATCH_END X = 0"
  shows "indexOf (X @ [nl] @ generateRtlCss m) PATCH_END
           = Some (Suc (length (X @ nl # join (PATCH_START # mid_lines_of m))))"
    and "drop (Suc (length (X @ nl # join (PATCH_START # mid_lines_of m))) + length PATCH_END)
           (X @ [nl] @ generateRtlCss m) = []"
proof -
  let ?mid = "mid_lines_of m"
  let ?w = "X @ [nl] @ generateRtlCss m"
  have g2: "generateRtlCss m = join (PATCH_START # ?mid) @ nl # PATCH_END"
    using join_snoc [of "PATCH_START # ?mid" PATCH_END]
    by (simp add: generateRtlCss_def rtl_lines_shape)
  have w2: "?w = (X @ nl # join (PATCH_START # ?mid)) @ nl # PATCH_END @ []"
    by (simp add: g2)
  have "countOcc PATCH_END (join (PATCH_START # ?mid)) = 0"
    by (simp add: countOcc_join END_facts START_facts sum_mid_0 [OF assms(1)])
  then have "countOcc PATCH_END (X @ nl # join (PATCH_START # ?mid)) = 0"
    using assms(2) by (simp add: countOcc_sep END_facts)
  then show "indexOf ?w PATCH_END = Some (Suc (length (X @ nl # join (PATCH_START # ?mid))))"
    unfolding w2 using END_facts(1,2) by (intro indexOf_sep)
  show "drop (Suc (length (X @ nl # join (PATCH_START # ?mid))) + length PATCH_END) ?w = []"
    unfolding w2 by simp
qed

lemma removePatchContent_first_start:
  assumes "slash_free m" and "countOcc PATCH_END X = 0"
    and "indexOf (X @ [nl] @ generateRtlCss m) PATCH_START = Some i"
  shows "removePatchContent (X @ [nl] @ generateRtlCss m)
           = replace_trailing_newlines (take i (X @ [nl] @ generateRtlCss m))"
  unfolding removePatchContent_def assms(3) indexOf_END_patched(1) [OF assms(1,2)]
  by (simp only: option.case prod.case Let_def indexOf_END_patched(2) [OF assms(1,2)] append_Nil2)

lemma applyPatch_ok_state:
  assumes "files p = Some c" and "applyPatch files p = (ApplySuccess m b, files')"
  shows "files' p = Some (working_copy c @ [nl] @ generateRtlCss (extractClassMap (working_copy c)))"
proof (cases "truthy (extractClassMap (working_copy c) ''message'')")
  case True
  show ?thesis
    using applyPatch_success [of files p c, OF assms(1) True] assms(2) by auto
next
  case False
  show ?thesis
    using applyPatch_failure [of files p c, OF assms(1) False] assms(2) by simp
qed

lemma applyPatch_again:
  assumes "files p = Some c"
    and "countOcc PATCH_START (working_copy c) = 0"
    and "countOcc PATCH_END (working_copy c) = 0"
    and "working_copy c = [] \<or> last (working_copy c) \<noteq> nl"
    and "extractClassMap (working_copy c) ''message'' \<noteq> None"
  shows "fst (applyPatch files p) = ApplySuccess (extractClassMap (working_copy c)) (backup_of p)
       \<and> applyPatch (snd (applyPatch files p)) p = applyPatch files p"
proof -
  let ?w = "working_copy c"
  let ?m = "extractClassMap ?w"
  let ?c1 = "?w @ [nl] @ generateRtlCss ?m"
  let ?files1 = "(if files (backup_of p) = None then files(backup_of p \<mapsto> ?w) else files)(p \<mapsto> ?c1)"
  have t: "truthy (?m ''message'')"
    using assms(5) by (simp add: truthy_extract)
  have a1: "applyPatch files p = (ApplySuccess ?m (backup_of p), ?files1)"
    using applyPatch_success [of files p c, OF assms(1) t] .
  have w1: "working_copy ?c1 = ?w"
    using working_copy_patched [OF slash_free_extract assms(2,3)]
      replace_trailing_newlines_id [OF assms(4)] by simp
  have f1: "?files1 p = Some ?c1"
    by simp
  have t1: "truthy (extractClassMap (working_copy ?c1) ''message'')"
    unfolding w1 by (rule t)
  have b1: "?files1 (backup_of p) \<noteq> None"
    by (simp add: backup_of_neq)
  have "applyPatch ?files1 p =
      (ApplySuccess (extractClassMap (working_copy ?c1)) (backup_of p),
       (if ?files1 (backup_of p) = None then ?files1(backup_of p \<mapsto> working_copy ?c1) else ?files1)
         (p \<mapsto> working_copy ?c1 @ [nl] @ generateRtlCss (extractClassMap (working_copy ?c1))))"
    using applyPatch_success [of ?files1 p ?c1, OF f1 t1] .
  then have "applyPatch ?files1 p = (ApplySuccess ?m (backup_of p), ?files1(p \<mapsto> ?c1))"
    unfolding w1 using b1 by (simp only: if_False)
  moreover have "?files1(p \<mapsto> ?c1) = ?files1"
    by simp
  ultimately have "applyPatch ?files1 p = (ApplySuccess ?m (backup_of p), ?files1)"
    by simp
  then show ?thesis
    by (simp only: a1 fst_conv snd_conv simp_thms)
qed

lemma apply_times_Suc:
  "apply_times (Suc n) files p = Some files' \<Longrightarrow>
     \<exists>m b files1. applyPatch files p = (ApplySuccess m b, files1) \<and> apply_times n files1 p = Some files'"
  by (auto split: prod.splits apply_result.splits)

lemma apply_times_shape:
  assumes "files p = Some c"
    and "countOcc PATCH_START (working_copy c) = 0"
    and "countOcc PATCH_END (working_copy c) = 0"
    and "apply_times (Suc n) files p = Some files'"
  shows "\<exists>B. files' p = Some (B @ [nl] @ generateRtlCss (extractClassMap B))
            \<and> countOcc PATCH_START B = 0 \<and> countOcc PATCH_END B = 0"
  using assms
proof (induction n arbitrary: files c)
  case 0
  obtain m b files1 where a: "applyPatch files p = (ApplySuccess m b, files1)"
    and r: "apply_times 0 files1 p = Some files'"
    using apply_times_Suc [OF "0.prems"(4)] by blast
  have "files1 = files'" using r by simp
  then show ?case
    using applyPatch_ok_state [OF "0.prems"(1) a] "0.prems"(2,3) by blast
next
  case (Suc n)
  let ?w = "working_copy c"
  let ?c1 = "?w @ [nl] @ generateRtlCss (extractClassMap ?w)"
  obtain m b files1 where a: "applyPatch files p = (ApplySuccess m b, files1)"
    and r: "apply_times (Suc n) files1 p = Some files'"
    using apply_times_Suc [OF Suc.prems(4)] by blast
  have f1: "files1 p = Some ?c1"
    using Suc.prems(1) a by (rule applyPatch_ok_state)
  have w1: "working_copy ?c1 = replace_trailing_newlines ?w"
    using slash_free_extract Suc.prems(2,3) by (rule working_copy_patched)
  have s1: "countOcc PATCH_START (working_copy ?c1) = 0"
    unfolding w1 using Suc.prems(2) by (rule countOcc_replace_trailing_newlines)
  have e1: "countOcc PATCH_END (working_copy ?c1) = 0"
    unfolding w1 using Suc.prems(3) by (rule countOcc_replace_trailing_newlines)
  show ?case
    using f1 s1 e1 r by (rule Suc.IH)
qed

lemma includes_END_patched:
  assumes "slash_free m" and "countOcc PATCH_END B = 0"
  shows "countOcc PATCH_END (B @ [nl] @ generateRtlCss m) = 1"
  using assms by (simp add: countOcc_sep END_facts countOcc_END_fragment)

lemma unpatched_A:
  "working_copy ''.message_A{}'' = ''.message_A{}''"
  "countOcc PATCH_START ''.message_A{}'' = 0"
  "countOcc PATCH_END ''.message_A{}'' = 0"
  "extractClassMap ''.message_A{}'' ''message'' \<noteq> None"
  using extract_message_A [of "[]"]
  by (simp_all add: working_copy_def includes_str_def PATCH_START_def PATCH_END_def)

lemma truncated_fragment:
  assumes "countOcc PATCH_END c = 0" and "extractClassMap c ''message'' \<noteq> None"
    and "files p = Some c"
  shows "working_copy c = c"
    and "fst (applyPatch files p) = ApplySuccess (extractClassMap c) (backup_of p)"
    and "snd (applyPatch files p) p = Some (c @ [nl] @ generateRtlCss (extractClassMap c))"
proof -
  have "\<not> includes_str c PATCH_END"
    using assms(1) by (simp add: includes_str_iff)
  then show w: "working_copy c = c"
    by (simp add: working_copy_def removePatchContent_no_end)
  have t: "truthy (extractClassMap (working_copy c) ''message'')"
    unfolding w using assms(2) by (simp add: truthy_extract)
  show "fst (applyPatch files p) = ApplySuccess (extractClassMap c) (backup_of p)"
    using applyPatch_success [of files p c, OF assms(3) t] by (simp add: w)
  show "snd (applyPatch files p) p = Some (c @ [nl] @ generateRtlCss (extractClassMap c))"
    using applyPatch_success [of files p c, OF assms(3) t] by (simp add: w)
qed

lemma apply_times_one:
  "fst (applyPatch files p) = ApplySuccess m b \<Longrightarrow>
     apply_times (Suc 0) files p = Some (snd (applyPatch files p))"
  by (cases "applyPatch files p") simp

lemma apply_times_two:
  assumes "fst (applyPatch files p) = ApplySuccess m b"
    and "applyPatch (snd (applyPatch files p)) p = applyPatch files p"
  shows "apply_times (Suc (Suc 0)) files p = Some (snd (applyPatch files p))"
proof -
  obtain files1 where a: "applyPatch files p = (ApplySuccess m b, files1)"
    using assms(1) by (cases "applyPatch files p") simp
  have "applyPatch files1 p = (ApplySuccess m b, files1)"
    using assms(2) by (simp add: a)
  then show ?thesis by (simp add: a)
qed

lemma indexOf_after_sample:
  "indexOf (''.message_A{}'' @ PATCH_START @ R) PATCH_START = Some (length ''.message_A{}'')"
  by (simp add: PATCH_START_def)

text \<open>
  C4, amended: when the content \<open>applyPatch\<close> works on (the file's content, with the
  fragment excised if the start marker is present) has neither marker, does not end in a
  line feed and resolves \<open>message\<close>, the first \<open>applyPatch\<close> succeeds and a second
  one returns the same result and leaves the same files, contents and backup alike.
\<close>

theorem apply_twice_same_as_once:
  assumes "files p = Some c"
    and "countOcc PATCH_START (working_copy c) = 0"
    and "countOcc PATCH_END (working_copy c) = 0"
    and "working_copy c = [] \<or> last (working_copy c) \<noteq> nl"
    and "extractClassMap (working_copy c) ''message'' \<noteq> None"
  shows "fst (applyPatch files p) = ApplySuccess (extractClassMap (working_copy c)) (backup_of p)
       \<and> applyPatch (snd (applyPatch files p)) p = applyPatch files p"
  using assms by (rule applyPatch_again)

theorem apply_twice_same_as_once_witness:
  "[''index.css'' \<mapsto> ''.message_A{}''] ''index.css'' = Some ''.message_A{}''
   \<and> countOcc PATCH_START (working_copy ''.message_A{}'') = 0
   \<and> countOcc PATCH_END (working_copy ''.message_A{}'') = 0
   \<and> (working_copy ''.message_A{}'' = [] \<or> last (working_copy ''.message_A{}'') \<noteq> nl)
   \<and> extractClassMap (working_copy ''.message_A{}'') ''message'' \<noteq> None
   \<and> fst (applyPatch [''index.css'' \<mapsto> ''.message_A{}''] ''index.css'')
       = ApplySuccess (extractClassMap (working_copy ''.message_A{}'')) (backup_of ''index.css'')
   \<and> applyPatch (snd (applyPatch [''index.css'' \<mapsto> ''.message_A{}''] ''index.css'')) ''index.css''
       = applyPatch [''index.css'' \<mapsto> ''.message_A{}''] ''index.css''"
proof -
  let ?f = "[''index.css'' \<mapsto> ''.message_A{}'']"
  have h1: "?f ''index.css'' = Some ''.message_A{}''"
    by simp
  have h2: "countOcc PATCH_START (working_copy ''.message_A{}'') = 0"
    by (simp only: unpatched_A)
  have h3: "countOcc PATCH_END (working_copy ''.message_A{}'') = 0"
    by (simp only: unpatched_A)
  have h4: "working_copy ''.message_A{}'' = [] \<or> last (working_copy ''.message_A{}'') \<noteq> nl"
    unfolding unpatched_A(1) by simp
  have h5: "extractClassMap (working_copy ''.message_A{}'') ''message'' \<noteq> None"
    unfolding unpatched_A(1) by (rule unpatched_A(4))
  show ?thesis
    using h1 h2 h3 h4 h5
      apply_twice_same_as_once [of ?f "''index.css''" "''.message_A{}''", OF h1 h2 h3 h4 h5]
    by blast
qed

text \<open>
  A file cut off inside a fragment (start marker, no end marker): the first call excises
  nothing and appends a fragment, the second call excises from the stray start marker on,
  so the two end states differ.
\<close>

theorem apply_twice_truncated_counterexample:
  "fst (applyPatch [''index.css'' \<mapsto> ''.message_A{}'' @ PATCH_START] ''index.css'')
     = ApplySuccess (extractClassMap (''.message_A{}'' @ PATCH_START)) (backup_of ''index.css'')
   \<and> snd (applyPatch [''index.css'' \<mapsto> ''.message_A{}'' @ PATCH_START] ''index.css'')
         ''index.css''
     = Some ((''.message_A{}'' @ PATCH_START) @ [nl] @
             generateRtlCss (extractClassMap (''.message_A{}'' @ PATCH_START)))
   \<and> snd (applyPatch
           (snd (applyPatch [''index.css'' \<mapsto> ''.message_A{}'' @ PATCH_START] ''index.css''))
           ''index.css'')
         ''index.css''
     = Some (''.message_A{}'' @ [nl] @ generateRtlCss (extractClassMap ''.message_A{}''))
   \<and> (''.message_A{}'' @ PATCH_START) @ [nl] @
         generateRtlCss (extractClassMap (''.message_A{}'' @ PATCH_START))
     \<noteq> ''.message_A{}'' @ [nl] @ generateRtlCss (extractClassMap ''.message_A{}'')"
proof -
  define B where "B = ''.message_A{}''"
  define c where "c = ''.message_A{}'' @ PATCH_START"
  define f where "f = [''index.css'' \<mapsto> c]"
  define c1 where "c1 = c @ [nl] @ generateRtlCss (extractClassMap c)"
  define f1 where "f1 = snd (applyPatch f ''index.css'')"
  have e: "countOcc PATCH_END c = 0"
    by (simp add: c_def PATCH_START_def PATCH_END_def)
  have s: "countOcc PATCH_START c = 1"
    by (simp add: c_def PATCH_START_def)
  have m: "extractClassMap c ''message'' \<noteq> None"
    unfolding c_def by (simp only: extract_message_A) simp
  have h: "f ''index.css'' = Some c"
    by (simp add: f_def)
  have a: "fst (applyPatch f ''index.css'') = ApplySuccess (extractClassMap c) (backup_of ''index.css'')"
    using truncated_fragment(2) [where files = f and p = "''index.css''", OF e m h] .
  have b: "f1 ''index.css'' = Some c1"
    unfolding f1_def c1_def
    using truncated_fragment(3) [where files = f and p = "''index.css''", OF e m h] .
  have i: "indexOf c1 PATCH_START = Some (length B)"
    unfolding c1_def c_def B_def using indexOf_after_sample by simp
  have inc: "includes_str c1 PATCH_START"
    by (simp add: includes_str_def i)
  have "removePatchContent c1 = replace_trailing_newlines (take (length B) c1)"
    unfolding c1_def
    using slash_free_extract e i [unfolded c1_def] by (rule removePatchContent_first_start)
  moreover have "take (length B) c1 = B"
    by (simp add: c1_def c_def B_def)
  moreover have "replace_trailing_newlines B = B"
    by (simp add: B_def)
  ultimately have w1: "working_copy c1 = B"
    using inc by (simp add: working_copy_def)
  have t1: "truthy (extractClassMap (working_copy c1) ''message'')"
    unfolding w1 B_def using unpatched_A(4) by (simp add: truthy_extract)
  have d: "snd (applyPatch f1 ''index.css'') ''index.css''
             = Some (B @ [nl] @ generateRtlCss (extractClassMap B))"
    using applyPatch_success [of f1 "''index.css''" c1, OF b t1] by (simp add: w1)
  have ne: "c1 \<noteq> B @ [nl] @ generateRtlCss (extractClassMap B)"
    by (simp add: c1_def c_def B_def PATCH_START_def)
  show ?thesis
    using a b d ne unfolding f1_def c1_def f_def c_def B_def by blast
qed

text \<open>
  C5, amended: when the content \<open>applyPatch\<close> works on at the first call has neither
  marker, then after any number \<open>n \<ge> 1\<close> of consecutive successful calls the file is a
  marker-free text followed by a line feed and the fragment synthesized from it, and it has
  exactly one occurrence of the start marker and one of the end marker.
\<close>

theorem one_start_marker_after_applies:
  assumes "files p = Some c"
    and "countOcc PATCH_START (working_copy c) = 0"
    and "countOcc PATCH_END (working_copy c) = 0"
    and "1 \<le> n"
    and "apply_times n files p = Some files'"
  shows "\<exists>B. files' p = Some (B @ [nl] @ generateRtlCss (extractClassMap B))
            \<and> countOcc PATCH_START B = 0 \<and> countOcc PATCH_END B = 0
            \<and> countOcc PATCH_START (B @ [nl] @ generateRtlCss (extractClassMap B)) = 1
            \<and> countOcc PATCH_END (B @ [nl] @ generateRtlCss (extractClassMap B)) = 1"
proof -
  obtain k where n: "n = Suc k"
    using assms(4) by (cases n) simp_all
  obtain B where B: "files' p = Some (B @ [nl] @ generateRtlCss (extractClassMap B))"
      "countOcc PATCH_START B = 0" "countOcc PATCH_END B = 0"
    using apply_times_shape [OF assms(1,2,3) assms(5) [unfolded n]] by blast
  show ?thesis
    using B includes_patched [OF slash_free_extract B(2)]
      includes_END_patched [OF slash_free_extract B(3)] by blast
qed

theorem one_start_marker_after_applies_witness:
  "[''index.css'' \<mapsto> ''.message_A{}''] ''index.css'' = Some ''.message_A{}''
   \<and> countOcc PATCH_START (working_copy ''.message_A{}'') = 0
   \<and> countOcc PATCH_END (working_copy ''.message_A{}'') = 0
   \<and> 1 \<le> Suc (Suc 0)
   \<and> apply_times (Suc (Suc 0)) [''index.css'' \<mapsto> ''.message_A{}''] ''index.css''
       = Some (snd (applyPatch [''index.css'' \<mapsto> ''.message_A{}''] ''index.css''))
   \<and> (\<exists>B. snd (applyPatch [''index.css'' \<mapsto> ''.message_A{}''] ''index.css'') ''index.css''
             = Some (B @ [nl] @ generateRtlCss (extractClassMap B))
          \<and> countOcc PATCH_START B = 0 \<and> countOcc PATCH_END B = 0
          \<and> countOcc PATCH_START (B @ [nl] @ generateRtlCss (extractClassMap B)) = 1
          \<and> countOcc PATCH_END (B @ [nl] @ generateRtlCss (extractClassMap B)) = 1)"
proof -
  define c where "c = ''.message_A{}''"
  define f where "f = [''index.css'' \<mapsto> c]"
  have w: "working_copy c = c"
    unfolding c_def by (rule unpatched_A(1))
  have h1: "f ''index.css'' = Some c"
    by (simp add: f_def)
  have h2: "countOcc PATCH_START (working_copy c) = 0"
    unfolding w unfolding c_def by (rule unpatched_A(2))
  have h3: "countOcc PATCH_END (working_copy c) = 0"
    unfolding w unfolding c_def by (rule unpatched_A(3))
  have h4: "1 \<le> Suc (Suc 0)"
    by simp
  have l: "working_copy c = [] \<or> last (working_copy c) \<noteq> nl"
    unfolding w by (simp add: c_def)
  have m: "extractClassMap (working_copy c) ''message'' \<noteq> None"
    unfolding w unfolding c_def by (rule unpatched_A(4))
  have again: "fst (applyPatch f ''index.css'')
                 = ApplySuccess (extractClassMap (working_copy c)) (backup_of ''index.css'')
               \<and> applyPatch (snd (applyPatch f ''index.css'')) ''index.css''
                 = applyPatch f ''index.css''"
    using applyPatch_again [where files = f and p = "''index.css''" and c = c, OF h1 h2 h3 l m] .
  have h5: "apply_times (Suc (Suc 0)) f ''index.css'' = Some (snd (applyPatch f ''index.css''))"
    using again apply_times_two [where files = f and p = "''index.css''"] by blast
  show ?thesis
    using h1 h2 h3 h4 h5
      one_start_marker_after_applies
        [where files = f and p = "''index.css''" and c = c and n = "Suc (Suc 0)", OF h1 h2 h3 h4 h5]
    unfolding f_def c_def by blast
qed

text \<open>
  On the file cut off inside a fragment, one successful call leaves two start markers.
\<close>

theorem one_start_marker_truncated_counterexample:
  "apply_times (Suc 0) [''index.css'' \<mapsto> ''.message_A{}'' @ PATCH_START] ''index.css''
     = Some (snd (applyPatch [''index.css'' \<mapsto> ''.message_A{}'' @ PATCH_START] ''index.css''))
   \<and> snd (applyPatch [''index.css'' \<mapsto> ''.message_A{}'' @ PATCH_START] ''index.css'')
         ''index.css''
     = Some ((''.message_A{}'' @ PATCH_START) @ [nl] @
             generateRtlCss (extractClassMap (''.message_A{}'' @ PATCH_START)))
   \<and> countOcc PATCH_START
        ((''.message_A{}'' @ PATCH_START) @ [nl] @
         generateRtlCss (extractClassMap (''.message_A{}'' @ PATCH_START)))
     = 2"
proof -
  define c where "c = ''.message_A{}'' @ PATCH_START"
  define f where "f = [''index.css'' \<mapsto> c]"
  have e: "countOcc PATCH_END c = 0"
    by (simp add: c_def PATCH_START_def PATCH_END_def)
  have s: "countOcc PATCH_START c = 1"
    by (simp add: c_def PATCH_START_def)
  have m: "extractClassMap c ''message'' \<noteq> None"
    unfolding c_def by (simp only: extract_message_A) simp
  have h: "f ''index.css'' = Some c"
    by (simp add: f_def)
  have a: "apply_times (Suc 0) f ''index.css'' = Some (snd (applyPatch f ''index.css''))"
    using truncated_fragment(2) [where files = f and p = "''index.css''", OF e m h]
    by (rule apply_times_one)
  have b: "snd (applyPatch f ''index.css'') ''index.css''
             = Some (c @ [nl] @ generateRtlCss (extractClassMap c))"
    using truncated_fragment(3) [where files = f and p = "''index.css''", OF e m h] .
  have n: "countOcc PATCH_START (c @ [nl] @ generateRtlCss (extractClassMap c)) = 2"
    using s countOcc_START_fragment [OF slash_free_extract, of c]
    by (simp add: countOcc_sep START_facts)
  show ?thesis
    using a b n unfolding f_def c_def by blast
qed

section \<open>The resolver against the specification's wording\<close>

lemma takeWhile_run:
  assumes "\<forall>c\<in>set h. is_alnum c" and "is_boundary b"
  shows "takeWhile is_alnum (h @ b # rest) = h" and "dropWhile is_alnum (h @ b # rest) = b # rest"
proof -
  have nb: "\<not> is_alnum b"
    using assms(2) alnum_not_boundary by blast
  show "takeWhile is_alnum (h @ b # rest) = h"
    using assms(1) nb by (simp add: takeWhile_append2)
  show "dropWhile is_alnum (h @ b # rest) = b # rest"
    using assms(1) nb by (simp add: dropWhile_append2)
qed

lemma match_at_hit:
  assumes "h \<noteq> []" and "\<forall>c\<in>set h. is_alnum c" and "is_boundary b"
  shows "match_at name (''.'' @ name @ ''_'' @ h @ b # rest) = Some h"
proof -
  have "match_hash (h @ b # rest) = Some h"
    using assms(1,3) takeWhile_run [OF assms(2,3), of rest]
    by (simp add: match_hash_eq lookahead_def)
  then show ?thesis
    by (simp add: match_at_def)
qed

lemma match_at_occurrence:
  "match_at key s = Some h \<longleftrightarrow> occurrence key s 0 h"
proof
  assume m: "match_at key s = Some h"
  let ?lit = "''.'' @ key @ ''_''"
  from m have p: "prefix ?lit s" and mh: "match_hash (drop (length ?lit) s) = Some h"
    by (auto simp: match_at_def Let_def split: if_splits)
  let ?r = "drop (length ?lit) s"
  from mh have h: "h = takeWhile is_alnum ?r" and ne: "h \<noteq> []"
    and la: "lookahead (dropWhile is_alnum ?r)"
    by (auto simp: match_hash_eq split: if_splits)
  have s: "s = ?lit @ ?r"
    using p by (metis append_take_drop_id prefixE append_eq_conv_conj)
  have r: "?r = h @ dropWhile is_alnum ?r"
    unfolding h by simp
  have al: "list_all is_alnum h"
    unfolding h list_all_iff by (auto dest: set_takeWhileD)
  have s': "s = (?lit @ h) @ dropWhile is_alnum ?r"
    using s r by (metis append.assoc)
  have pre: "prefix (?lit @ h) s"
    using s' by (metis prefixI)
  have d: "drop (length (?lit @ h)) s = dropWhile is_alnum ?r"
    using s' by (metis append_eq_conv_conj)
  show "occurrence key s 0 h"
    using ne al pre la d by (simp add: occurrence_def lookahead_def)
next
  assume o: "occurrence key s 0 h"
  let ?lit = "''.'' @ key @ ''_''"
  from o have ne: "h \<noteq> []" and al: "\<forall>c\<in>set h. is_alnum c"
    and pre: "prefix (?lit @ h) s"
    and b: "case drop (length (?lit @ h)) s of [] \<Rightarrow> False | c # _ \<Rightarrow> is_boundary c"
    by (simp_all add: occurrence_def list_all_iff)
  obtain t where t: "s = (?lit @ h) @ t"
    using pre by (auto elim: prefixE)
  have "drop (length (?lit @ h)) s = t"
    unfolding t by simp
  then obtain c rest where c: "t = c # rest" "is_boundary c"
    using b by (cases t) simp_all
  have "s = ''.'' @ key @ ''_'' @ h @ c # rest"
    using t c(1) by simp
  then show "match_at key s = Some h"
    using match_at_hit [OF ne al c(2), of key rest] by simp
qed

lemma occurrence_drop: "occurrence key s i h \<longleftrightarrow> occurrence key (drop i s) 0 h"
  by (simp add: occurrence_def add.commute)

lemma regex_exec_first:
  "regex_exec name s = Some h \<longleftrightarrow>
     (\<exists>i. match_at name (drop i s) = Some h \<and> (\<forall>j<i. match_at name (drop j s) = None))"
proof (induction s)
  case Nil
  show ?case
  proof
    assume "regex_exec name [] = Some h"
    then have "match_at name (drop 0 []) = Some h \<and> (\<forall>j<0. match_at name (drop j []) = None)"
      by simp
    then show "\<exists>i. match_at name (drop i []) = Some h \<and> (\<forall>j<i. match_at name (drop j []) = None)"
      by blast
  next
    assume "\<exists>i. match_at name (drop i []) = Some h \<and> (\<forall>j<i. match_at name (drop j []) = None)"
    then show "regex_exec name [] = Some h" by auto
  qed
next
  case (Cons c cs)
  show ?case
  proof (cases "match_at name (c # cs)")
    case (Some h0)
    show ?thesis
    proof
      assume "regex_exec name (c # cs) = Some h"
      then have "match_at name (drop 0 (c # cs)) = Some h
                 \<and> (\<forall>j<0. match_at name (drop j (c # cs)) = None)"
        using Some by simp
      then show "\<exists>i. match_at name (drop i (c # cs)) = Some h
                    \<and> (\<forall>j<i. match_at name (drop j (c # cs)) = None)"
        by blast
    next
      assume "\<exists>i. match_at name (drop i (c # cs)) = Some h
                 \<and> (\<forall>j<i. match_at name (drop j (c # cs)) = None)"
      then obtain i where i: "match_at name (drop i (c # cs)) = Some h"
        "\<forall>j<i. match_at name (drop j (c # cs)) = None"
        by blast
      have "i = 0"
      proof (rule ccontr)
        assume "i \<noteq> 0"
        then have "match_at name (drop 0 (c # cs)) = None" using i(2) by blast
        then show False using Some by simp
      qed
      then show "regex_exec name (c # cs) = Some h"
        using i(1) by simp
    qed
  next
    case None
    show ?thesis
    proof
      assume "regex_exec name (c # cs) = Some h"
      then have "regex_exec name cs = Some h" using None by simp
      then obtain i where i: "match_at name (drop i cs) = Some h"
        "\<forall>j<i. match_at name (drop j cs) = None"
        using Cons.IH by blast
      have "\<forall>j<Suc i. match_at name (drop j (c # cs)) = None"
      proof (intro allI impI)
        fix j assume "j < Suc i"
        then show "match_at name (drop j (c # cs)) = None"
          using None i(2) by (cases j) simp_all
      qed
      moreover have "match_at name (drop (Suc i) (c # cs)) = Some h"
        using i(1) by simp
      ultimately show "\<exists>i. match_at name (drop i (c # cs)) = Some h
                    \<and> (\<forall>j<i. match_at name (drop j (c # cs)) = None)"
        by blast
    next
      assume "\<exists>i. match_at name (drop i (c # cs)) = Some h
                 \<and> (\<forall>j<i. match_at name (drop j (c # cs)) = None)"
      then obtain i where i: "match_at name (drop i (c # cs)) = Some h"
        "\<forall>j<i. match_at name (drop j (c # cs)) = None"
        by blast
      obtain k where k: "i = Suc k"
        using i(1) None by (cases i) simp_all
      have "match_at name (drop k cs) = Some h"
        using i(1) k by simp
      moreover have "\<forall>j<k. match_at name (drop j cs) = None"
      proof (intro allI impI)
        fix j assume "j < k"
        then have "match_at name (drop (Suc j) (c # cs)) = None"
          using i(2) k by blast
        then show "match_at name (drop j cs) = None" by simp
      qed
      ultimately have "regex_exec name cs = Some h"
        using Cons.IH by blast
      then show "regex_exec name (c # cs) = Some h"
        using None by simp
    qed
  qed
qed

lemma regex_exec_None_iff:
  "regex_exec name s = None \<longleftrightarrow> (\<forall>i. match_at name (drop i s) = None)"
proof
  assume n: "regex_exec name s = None"
  show "\<forall>i. match_at name (drop i s) = None"
  proof (rule ccontr)
    assume "\<not> (\<forall>i. match_at name (drop i s) = None)"
    then have ex: "\<exists>i. match_at name (drop i s) \<noteq> None" by blast
    define i where "i = (LEAST i. match_at name (drop i s) \<noteq> None)"
    have 1: "match_at name (drop i s) \<noteq> None"
      unfolding i_def using ex by (rule LeastI_ex)
    have 2: "\<forall>j<i. match_at name (drop j s) = None"
      unfolding i_def using not_less_Least by blast
    obtain h where "match_at name (drop i s) = Some h" using 1 by blast
    then have "regex_exec name s = Some h"
      using 2 regex_exec_first [of name s h] by blast
    then show False using n by simp
  qed
next
  assume a: "\<forall>i. match_at name (drop i s) = None"
  show "regex_exec name s = None"
  proof (cases "regex_exec name s")
    case None
    then show ?thesis .
  next
    case (Some h)
    then obtain i where "match_at name (drop i s) = Some h"
      using regex_exec_first [of name s h] by blast
    then show ?thesis using a by simp
  qed
qed

lemma match_at_no_dot: "CHR ''.'' \<noteq> x \<Longrightarrow> match_at name (x # s) = None"
  by (auto simp: match_at_def)

lemma match_at_Nil: "match_at name [] = None"
  by (simp add: match_at_def)

lemma regex_exec_skip:
  "CHR ''.'' \<notin> set a \<Longrightarrow> regex_exec name (a @ r) = regex_exec name r"
  by (induction a) (simp_all add: match_at_no_dot)

lemma regex_exec_no_dot: "CHR ''.'' \<notin> set s \<Longrightarrow> regex_exec name s = None"
  by (induction s) (simp_all add: match_at_no_dot match_at_Nil)

lemma alnum_not_dot: "is_alnum c \<Longrightarrow> c \<noteq> CHR ''.''"
  by (auto simp: is_alnum_def Let_def)

lemma extract_in_patterns:
  "key \<in> set patterns \<Longrightarrow> extractClassMap s key = regex_exec key s"
  by (simp add: extractClassMap_apply)

lemma message_first:
  assumes "X \<noteq> []" and "\<forall>c\<in>set X. is_alnum c" and "CHR ''.'' \<notin> set a"
  shows "regex_exec ''message'' (a @ ''.message_'' @ X @ ''{'' @ r) = Some X"
proof -
  have "is_boundary (CHR ''{'')"
    by (simp add: is_boundary_def)
  then have "match_at ''message'' (''.'' @ ''message'' @ ''_'' @ X @ CHR ''{'' # r) = Some X"
    using assms(1,2) by (intro match_at_hit)
  then have "regex_exec ''message'' (''.message_'' @ X @ ''{'' @ r) = Some X"
    by simp
  then show ?thesis
    using regex_exec_skip [OF assms(3)] by simp
qed

lemma message_after_container:
  assumes "X \<noteq> []" and "\<forall>c\<in>set X. is_alnum c" and "\<forall>c\<in>set Y. is_alnum c"
    and "CHR ''.'' \<notin> set a" and "CHR ''.'' \<notin> set b"
  shows "regex_exec ''message''
           (a @ ''.messagesContainer_'' @ Y @ ''{'' @ b @ ''.message_'' @ X @ ''{'' @ r) = Some X"
proof -
  let ?t = "''.message_'' @ X @ ''{'' @ r"
  have d: "CHR ''.'' \<notin> set (''messagesContainer_'' @ Y @ ''{'' @ b)"
    using assms(3,5) alnum_not_dot by auto
  have n: "match_at ''message'' (''.messagesContainer_'' @ Y @ ''{'' @ b @ ?t) = None"
    by (simp add: match_at_def)
  have "regex_exec ''message'' (''.messagesContainer_'' @ Y @ ''{'' @ b @ ?t)
          = regex_exec ''message'' ((''messagesContainer_'' @ Y @ ''{'' @ b) @ ?t)"
    using n by simp
  also have "\<dots> = regex_exec ''message'' ([] @ ?t)"
    using regex_exec_skip [OF d, of "''message''" ?t] by simp
  also have "\<dots> = Some X"
    using message_first [OF assms(1,2), of "[]" r] by simp
  finally show ?thesis
    using regex_exec_skip [OF assms(4)] by simp
qed

text \<open>
  C6: for each of the resolver's keys, \<open>extractClassMap\<close> records \<open>h\<close> exactly when
  \<open>h\<close> is the hash of the first occurrence of \<^verbatim>\<open>.<key>_<hash>\<close> whose hash (one or
  more alphanumerics) is immediately followed by a boundary character, and records nothing
  exactly when there is no such occurrence. In particular, in a content that has
  \<^verbatim>\<open>.message_X{\<close> and \<^verbatim>\<open>.messagesContainer_Y{\<close>, in either order and with
  dot-free text before them, \<open>message\<close> resolves to \<open>X\<close>.
\<close>

theorem resolver_first_occurrence:
  "(key \<in> set patterns \<longrightarrow>
      (extractClassMap s key = Some h \<longleftrightarrow>
         (\<exists>i. occurrence key s i h \<and> (\<forall>j<i. \<forall>h'. \<not> occurrence key s j h')))
      \<and> (extractClassMap s key = None \<longleftrightarrow> (\<forall>i h'. \<not> occurrence key s i h')))
   \<and> (X \<noteq> [] \<and> list_all is_alnum X \<and> Y \<noteq> [] \<and> list_all is_alnum Y
        \<and> CHR ''.'' \<notin> set a \<and> CHR ''.'' \<notin> set b \<longrightarrow>
      extractClassMap
        (a @ ''.message_'' @ X @ ''{'' @ b @ ''.messagesContainer_'' @ Y @ ''{'' @ c) ''message''
        = Some X
      \<and> extractClassMap
        (a @ ''.messagesContainer_'' @ Y @ ''{'' @ b @ ''.message_'' @ X @ ''{'' @ c) ''message''
        = Some X)"
proof (intro conjI impI)
  assume k: "key \<in> set patterns"
  have none: "\<And>j. match_at key (drop j s) = None \<longleftrightarrow> (\<forall>h'. \<not> occurrence key s j h')"
  proof -
    fix j
    have "match_at key (drop j s) = None \<longleftrightarrow> (\<forall>h'. match_at key (drop j s) \<noteq> Some h')"
      by auto
    then show "match_at key (drop j s) = None \<longleftrightarrow> (\<forall>h'. \<not> occurrence key s j h')"
      by (simp add: match_at_occurrence occurrence_drop [of key s j])
  qed
  have some: "\<And>i. match_at key (drop i s) = Some h \<longleftrightarrow> occurrence key s i h"
    by (simp add: match_at_occurrence occurrence_drop [of key s])
  show "extractClassMap s key = Some h \<longleftrightarrow>
          (\<exists>i. occurrence key s i h \<and> (\<forall>j<i. \<forall>h'. \<not> occurrence key s j h'))"
    unfolding extract_in_patterns [OF k] regex_exec_first none some ..
  show "extractClassMap s key = None \<longleftrightarrow> (\<forall>i h'. \<not> occurrence key s i h')"
    unfolding extract_in_patterns [OF k] regex_exec_None_iff none ..
next
  assume a: "X \<noteq> [] \<and> list_all is_alnum X \<and> Y \<noteq> [] \<and> list_all is_alnum Y
        \<and> CHR ''.'' \<notin> set a \<and> CHR ''.'' \<notin> set b"
  have m: "''message'' \<in> set patterns"
    by (simp add: patterns_def)
  show "extractClassMap
        (a @ ''.message_'' @ X @ ''{'' @ b @ ''.messagesContainer_'' @ Y @ ''{'' @ c) ''message''
        = Some X"
    unfolding extract_in_patterns [OF m]
    using a by (intro message_first) (simp_all add: list_all_iff)
  show "extractClassMap
        (a @ ''.messagesContainer_'' @ Y @ ''{'' @ b @ ''.message_'' @ X @ ''{'' @ c) ''message''
        = Some X"
    unfolding extract_in_patterns [OF m]
    using a by (intro message_after_container) (simp_all add: list_all_iff)
qed

theorem resolver_first_occurrence_witness:
  "''message'' \<in> set patterns
   \<and> (''X1'' \<noteq> [] \<and> list_all is_alnum ''X1'' \<and> ''Y1'' \<noteq> [] \<and> list_all is_alnum ''Y1''
        \<and> CHR ''.'' \<notin> set [] \<and> CHR ''.'' \<notin> set ''}'')
   \<and> extractClassMap ''.messagesContainer_Y1{}.message_X1{}'' ''message'' = Some ''X1''
   \<and> (\<exists>i. occurrence ''message'' ''.messagesContainer_Y1{}.message_X1{}'' i ''X1''
          \<and> (\<forall>j<i. \<forall>h'. \<not> occurrence ''message'' ''.messagesContainer_Y1{}.message_X1{}'' j h'))"
proof -
  have k: "''message'' \<in> set patterns"
    by (simp add: patterns_def)
  have hyp: "''X1'' \<noteq> [] \<and> list_all is_alnum ''X1'' \<and> ''Y1'' \<noteq> [] \<and> list_all is_alnum ''Y1''
        \<and> CHR ''.'' \<notin> set [] \<and> CHR ''.'' \<notin> set ''}''"
    by (simp add: is_alnum_def)
  have eq: "[] @ ''.messagesContainer_'' @ ''Y1'' @ ''{'' @ ''}'' @ ''.message_'' @ ''X1'' @ ''{'' @ ''}''
              = ''.messagesContainer_Y1{}.message_X1{}''"
    by simp
  note t = resolver_first_occurrence
    [where key = "''message''" and s = "''.messagesContainer_Y1{}.message_X1{}''"
       and h = "''X1''" and X = "''X1''" and Y = "''Y1''" and a = "[]" and b = "''}''"
       and c = "''}''"]
  have "extractClassMap
          ([] @ ''.messagesContainer_'' @ ''Y1'' @ ''{'' @ ''}'' @ ''.message_'' @ ''X1'' @ ''{'' @ ''}'')
          ''message'' = Some ''X1''"
    using t hyp by blast
  then have r: "extractClassMap ''.messagesContainer_Y1{}.message_X1{}'' ''message'' = Some ''X1''"
    unfolding eq .
  show ?thesis
    using t k hyp r by blast
qed

section \<open>A hash with no boundary after it\<close>

lemma prefix_sep_tl:
  assumes "c \<notin> set (tl p)" and "a \<noteq> []"
  shows "prefix p (a @ c # b) \<longleftrightarrow> prefix p a"
proof
  assume "prefix p (a @ c # b)"
  then consider "prefix p a" | us where "p = a @ us" and "prefix us (c # b)"
    unfolding prefix_append by blast
  then show "prefix p a"
  proof cases
    case 1
    then show ?thesis .
  next
    case 2
    show ?thesis
    proof (cases us)
      case Nil
      then show ?thesis using 2 by simp
    next
      case (Cons u us')
      then have "u = c" using 2(2) by simp
      then have "c \<in> set (tl p)" using 2(1) Cons assms(2) by (cases a) simp_all
      then show ?thesis using assms(1) by simp
    qed
  qed
next
  assume "prefix p a" then show "prefix p (a @ c # b)" by (rule prefix_prefix)
qed

lemma match_at_needs_prefix:
  "\<not> prefix (''.'' @ name @ ''_'') s \<Longrightarrow> match_at name s = None"
  by (simp add: match_at_def)

lemma regex_exec_skip_pre:
  assumes "countOcc ''.message_'' pre = 0"
  shows "regex_exec ''message'' (pre @ ''.message_'' @ r) = regex_exec ''message'' (''.message_'' @ r)"
  using assms
proof (induction pre)
  case Nil
  then show ?case by simp
next
  case (Cons x pre)
  have "\<not> prefix ''.message_'' (x # pre)"
    using Cons.prems by (rule countOcc_0_not_prefix)
  then have "\<not> prefix ''.message_'' ((x # pre) @ CHR ''.'' # ''message_'' @ r)"
    using prefix_sep_tl [of "CHR ''.''" "''.message_''" "x # pre" "''message_'' @ r"] by simp
  then have "match_at ''message'' (x # pre @ ''.message_'' @ r) = None"
    by (intro match_at_needs_prefix) simp
  moreover have "countOcc ''.message_'' pre = 0"
    using Cons.prems by simp
  ultimately show ?case using Cons.IH by simp
qed

lemma match_at_end:
  assumes "\<forall>c\<in>set h. is_alnum c"
  shows "match_at key (''.'' @ key @ ''_'' @ h) = None"
proof -
  have d: "dropWhile is_alnum h = []"
    using assms by simp
  have "match_hash h = None"
    unfolding match_hash_eq d by (simp add: lookahead_def)
  then show ?thesis by (simp add: match_at_def)
qed

lemma match_at_no_boundary:
  assumes "\<forall>c\<in>set h. is_alnum c" and "\<not> is_alnum x" and "\<not> is_boundary x"
  shows "match_at key (''.'' @ key @ ''_'' @ h @ x # rest) = None"
proof -
  have d: "dropWhile is_alnum (h @ x # rest) = x # rest"
    using assms(1,2) by simp
  have "match_hash (h @ x # rest) = None"
    unfolding match_hash_eq d using assms(3) by (simp add: lookahead_def)
  then show ?thesis by (simp add: match_at_def)
qed

lemma message_at_end_unresolved:
  assumes "\<forall>c\<in>set h. is_alnum c" and "\<not> includes_str pre ''.message_''"
  shows "extractClassMap (pre @ ''.message_'' @ h) ''message'' = None"
proof -
  have c: "countOcc ''.message_'' pre = 0"
    using assms(2) by (simp add: includes_str_iff)
  have "match_at ''message'' (''.'' @ ''message'' @ ''_'' @ h) = None"
    using assms(1) by (rule match_at_end)
  moreover have "regex_exec ''message'' (''message_'' @ h) = None"
    using assms(1) alnum_not_dot by (intro regex_exec_no_dot) auto
  ultimately have "regex_exec ''message'' (''.message_'' @ h) = None"
    by simp
  then have "regex_exec ''message'' (pre @ ''.message_'' @ h) = None"
    using regex_exec_skip_pre [OF c, of h] by simp
  then show ?thesis
    by (simp add: extractClassMap_apply)
qed

text \<open>
  C9, amended: an occurrence of \<^verbatim>\<open>.<key>_<hash>\<close> whose hash ends the content, or
  is followed by a character that is neither alphanumeric nor a boundary, gives no match
  there. For a file that lacks at least one of the two markers and whose only
  \<^verbatim>\<open>.message_<hash>\<close> occurrence ends the file, \<open>extractClassMap\<close> has no
  \<open>message\<close> entry and \<open>applyPatch\<close> fails with the unrecognized-format error,
  leaving the files as they were.
\<close>

theorem hash_without_boundary_unresolved:
  "(h \<noteq> [] \<and> list_all is_alnum h \<longrightarrow> match_at key (''.'' @ key @ ''_'' @ h) = None)
   \<and> (h \<noteq> [] \<and> list_all is_alnum h \<and> \<not> is_alnum x \<and> \<not> is_boundary x \<longrightarrow>
        match_at key (''.'' @ key @ ''_'' @ h @ x # rest) = None)
   \<and> (h \<noteq> [] \<and> list_all is_alnum h \<and> \<not> includes_str pre ''.message_''
        \<and> files p = Some (pre @ ''.message_'' @ h)
        \<and> \<not> (includes_str (pre @ ''.message_'' @ h) PATCH_START
             \<and> includes_str (pre @ ''.message_'' @ h) PATCH_END) \<longrightarrow>
        extractClassMap (pre @ ''.message_'' @ h) ''message'' = None
        \<and> applyPatch files p = (ApplyFailure unrecognized, files))"
proof (intro conjI impI)
  assume "h \<noteq> [] \<and> list_all is_alnum h"
  then show "match_at key (''.'' @ key @ ''_'' @ h) = None"
    by (intro match_at_end) (simp add: list_all_iff)
next
  assume "h \<noteq> [] \<and> list_all is_alnum h \<and> \<not> is_alnum x \<and> \<not> is_boundary x"
  then show "match_at key (''.'' @ key @ ''_'' @ h @ x # rest) = None"
    by (intro match_at_no_boundary) (simp_all add: list_all_iff)
next
  assume a: "h \<noteq> [] \<and> list_all is_alnum h \<and> \<not> includes_str pre ''.message_''
        \<and> files p = Some (pre @ ''.message_'' @ h)
        \<and> \<not> (includes_str (pre @ ''.message_'' @ h) PATCH_START
             \<and> includes_str (pre @ ''.message_'' @ h) PATCH_END)"
  let ?c = "pre @ ''.message_'' @ h"
  have al: "\<forall>c\<in>set h. is_alnum c"
    using a by (simp add: list_all_iff)
  have np: "\<not> includes_str pre ''.message_''"
    using a by blast
  show e: "extractClassMap ?c ''message'' = None"
    using al np by (rule message_at_end_unresolved)
  have w: "working_copy ?c = ?c"
    using a by (intro working_copy_unpatched) blast
  have f: "files p = Some ?c"
    using a by blast
  have "\<not> truthy (extractClassMap (working_copy ?c) ''message'')"
    unfolding w e by (simp add: truthy_def)
  then show "applyPatch files p = (ApplyFailure unrecognized, files)"
    using applyPatch_failure [of files p ?c, OF f] by blast
qed

theorem hash_without_boundary_unresolved_witness:
  "(''B'' \<noteq> [] \<and> list_all is_alnum ''B'' \<and> \<not> is_alnum (CHR '';'') \<and> \<not> is_boundary (CHR '';''))
   \<and> (''B'' \<noteq> [] \<and> list_all is_alnum ''B'' \<and> \<not> includes_str ''.foo{}'' ''.message_''
        \<and> [''index.css'' \<mapsto> ''.foo{}'' @ ''.message_'' @ ''B''] ''index.css''
            = Some (''.foo{}'' @ ''.message_'' @ ''B'')
        \<and> \<not> (includes_str (''.foo{}'' @ ''.message_'' @ ''B'') PATCH_START
             \<and> includes_str (''.foo{}'' @ ''.message_'' @ ''B'') PATCH_END))
   \<and> match_at ''message'' (''.'' @ ''message'' @ ''_'' @ ''B'') = None
   \<and> match_at ''message'' (''.'' @ ''message'' @ ''_'' @ ''B'' @ CHR '';'' # ''color:red'') = None
   \<and> extractClassMap (''.foo{}'' @ ''.message_'' @ ''B'') ''message'' = None
   \<and> applyPatch [''index.css'' \<mapsto> ''.foo{}'' @ ''.message_'' @ ''B''] ''index.css''
       = (ApplyFailure unrecognized, [''index.css'' \<mapsto> ''.foo{}'' @ ''.message_'' @ ''B''])"
proof -
  have h1: "''B'' \<noteq> [] \<and> list_all is_alnum ''B''"
    by (simp add: is_alnum_def)
  have h2: "''B'' \<noteq> [] \<and> list_all is_alnum ''B'' \<and> \<not> is_alnum (CHR '';'') \<and> \<not> is_boundary (CHR '';'')"
    by (simp add: is_alnum_def is_boundary_def is_space_def)
  have h3: "''B'' \<noteq> [] \<and> list_all is_alnum ''B'' \<and> \<not> includes_str ''.foo{}'' ''.message_''
        \<and> [''index.css'' \<mapsto> ''.foo{}'' @ ''.message_'' @ ''B''] ''index.css''
            = Some (''.foo{}'' @ ''.message_'' @ ''B'')
        \<and> \<not> (includes_str (''.foo{}'' @ ''.message_'' @ ''B'') PATCH_START
             \<and> includes_str (''.foo{}'' @ ''.message_'' @ ''B'') PATCH_END)"
    by (simp add: is_alnum_def includes_str_def PATCH_START_def)
  note t = hash_without_boundary_unresolved
    [where h = "''B''" and key = "''message''" and x = "CHR '';''" and rest = "''color:red''"
       and pre = "''.foo{}''" and p = "''index.css''"
       and files = "[''index.css'' \<mapsto> ''.foo{}'' @ ''.message_'' @ ''B'']"]
  show ?thesis
    using h1 h2 h3 t by blast
qed

text \<open>
  With both markers in the file the excision comes first and can join the text around the
  fragment into a new \<^verbatim>\<open>.message_<hash>\<close> occurrence: \<open>applyPatch\<close> then succeeds
  although the file's only occurrence ends the file.
\<close>

theorem fragment_inside_class_name_counterexample:
  "\<not> includes_str (''.mess'' @ [nl] @ PATCH_START @ PATCH_END @ ''age_A{}'') ''.message_''
   \<and> extractClassMap
        ((''.mess'' @ [nl] @ PATCH_START @ PATCH_END @ ''age_A{}'') @ ''.message_'' @ ''B'')
        ''message'' = None
   \<and> fst (applyPatch
        [''index.css'' \<mapsto>
           (''.mess'' @ [nl] @ PATCH_START @ PATCH_END @ ''age_A{}'') @ ''.message_'' @ ''B'']
        ''index.css'')
     = ApplySuccess (extractClassMap ''.message_A{}.message_B'') (backup_of ''index.css'')"
proof -
  define pre where "pre = ''.mess'' @ [nl] @ PATCH_START @ PATCH_END @ ''age_A{}''"
  define c where "c = pre @ ''.message_'' @ ''B''"
  define f where "f = [''index.css'' \<mapsto> c]"
  have n: "\<not> includes_str pre ''.message_''"
    by (simp add: pre_def includes_str_def PATCH_START_def PATCH_END_def)
  have e: "extractClassMap (pre @ ''.message_'' @ ''B'') ''message'' = None"
    using n by (intro message_at_end_unresolved) (simp_all add: is_alnum_def)
  have s: "indexOf c PATCH_START = Some (length ''.mess'' + 1)"
    by (simp add: c_def pre_def PATCH_START_def)
  have d: "indexOf c PATCH_END = Some (length ''.mess'' + 1 + length PATCH_START)"
    by (simp add: c_def pre_def PATCH_START_def PATCH_END_def)
  have r: "removePatchContent c = ''.message_A{}.message_B''"
    unfolding removePatchContent_def s d
    by (simp add: c_def pre_def PATCH_START_def PATCH_END_def)
  have w: "working_copy c = ''.message_A{}.message_B''"
    by (simp add: working_copy_def includes_str_def s r)
  have t: "truthy (extractClassMap (working_copy c) ''message'')"
    unfolding w using extract_message_A [of "''.message_B''"] by (simp add: truthy_def)
  have h: "f ''index.css'' = Some c"
    by (simp add: f_def)
  have a: "fst (applyPatch f ''index.css'')
             = ApplySuccess (extractClassMap ''.message_A{}.message_B'') (backup_of ''index.css'')"
    using applyPatch_success [of f "''index.css''" c, OF h t] by (simp add: w)
  show ?thesis
    using n e a unfolding f_def c_def pre_def by blast
qed

section \<open>Selectors in the fragment\<close>

lemma countOcc_append_ge: "countOcc p b \<le> countOcc p (a @ b)"
  by (induction a) simp_all

lemma includes_str_prefix: "includes_str (p @ r) p"
  by (simp add: includes_str_def indexOf_prefix)

lemma includes_str_context:
  assumes "includes_str s p"
  shows "includes_str (a @ s @ b) p"
proof -
  have "countOcc p s \<le> countOcc p (s @ b)"
    by (rule countOcc_append_le)
  also have "\<dots> \<le> countOcc p (a @ s @ b)"
    by (rule countOcc_append_ge)
  finally show ?thesis
    using assms by (simp add: includes_str_iff)
qed

lemma includes_str_join:
  assumes "l \<in> set ls" and "includes_str l p"
  shows "includes_str (join ls) p"
  using assms(1)
proof (induction ls rule: join.induct)
  case 1
  then show ?case by simp
next
  case (2 x)
  then show ?case using assms(2) by simp
next
  case (3 x v va)
  show ?case
  proof (cases "l = x")
    case True
    then show ?thesis
      using includes_str_context [OF assms(2), of "[]" "nl # join (v # va)"] by simp
  next
    case False
    then have "includes_str (join (v # va)) p"
      using 3 by simp
    then show ?thesis
      using includes_str_context [of "join (v # va)" p "x @ [nl]" "[]"] by simp
  qed
qed

lemma selector_line:
  "key \<in> set synth_keys \<Longrightarrow> selector m key @ '','' \<in> set (rtl_lines m)"
  by (auto simp: synth_keys_def rtl_lines_def Let_def)

lemma includes_selector:
  assumes "key \<in> set synth_keys"
  shows "includes_str (generateRtlCss m) (selector m key)"
  unfolding generateRtlCss_def
  using selector_line [OF assms] includes_str_prefix [of "selector m key" "'',''"]
  by (rule includes_str_join)

lemma selector_Some: "m key = Some h \<Longrightarrow> h \<noteq> [] \<Longrightarrow> selector m key = ''.'' @ key @ ''_'' @ h"
  by (simp add: selector_def)

lemma selector_None: "m key = None \<Longrightarrow> selector m key = fallback key"
  by (simp add: selector_def)

text \<open>
  C7, amended: for each of the eight keys that \<open>generateRtlCss\<close> reads, the fragment
  contains the exact class selector \<^verbatim>\<open>.{key}_{hash}\<close> when the mapping has a
  (non-empty) hash for the key, and the attribute selector \<^verbatim>\<open>[class*="{key}_"]\<close>
  when it has none. For the mapping that only has \<open>message \<mapsto> XYZ999\<close> the fragment
  contains \<^verbatim>\<open>.message_XYZ999\<close> and the fallback selector of each of the seven other
  keys.
\<close>

theorem selector_fallback_policy:
  "(key \<in> set synth_keys \<and> m key = Some h \<and> h \<noteq> [] \<longrightarrow>
      includes_str (generateRtlCss m) (''.'' @ key @ ''_'' @ h))
   \<and> (key \<in> set synth_keys \<and> m key = None \<longrightarrow>
      includes_str (generateRtlCss m) (fallback key))
   \<and> includes_str (generateRtlCss [''message'' \<mapsto> ''XYZ999'']) ''.message_XYZ999''
   \<and> (key \<in> set synth_keys \<and> key \<noteq> ''message'' \<longrightarrow>
      includes_str (generateRtlCss [''message'' \<mapsto> ''XYZ999'']) (fallback key))"
proof (intro conjI impI)
  assume "key \<in> set synth_keys \<and> m key = Some h \<and> h \<noteq> []"
  then show "includes_str (generateRtlCss m) (''.'' @ key @ ''_'' @ h)"
    using includes_selector [of key m] selector_Some [of m key h] by simp
next
  assume "key \<in> set synth_keys \<and> m key = None"
  then show "includes_str (generateRtlCss m) (fallback key)"
    using includes_selector [of key m] selector_None [of m key] by simp
next
  have "''message'' \<in> set synth_keys"
    by (simp add: synth_keys_def)
  then have "includes_str (generateRtlCss [''message'' \<mapsto> ''XYZ999''])
               (selector [''message'' \<mapsto> ''XYZ999''] ''message'')"
    by (rule includes_selector)
  then show "includes_str (generateRtlCss [''message'' \<mapsto> ''XYZ999'']) ''.message_XYZ999''"
    by (simp add: selector_def)
next
  assume a: "key \<in> set synth_keys \<and> key \<noteq> ''message''"
  then have "[''message'' \<mapsto> ''XYZ999''] key = None"
    by simp
  then show "includes_str (generateRtlCss [''message'' \<mapsto> ''XYZ999'']) (fallback key)"
    using includes_selector [of key "[''message'' \<mapsto> ''XYZ999'']"] a
      selector_None [of "[''message'' \<mapsto> ''XYZ999'']" key] by simp
qed

theorem selector_fallback_policy_witness:
  "(''userMessage'' \<in> set synth_keys
      \<and> [''message'' \<mapsto> ''XYZ999'', ''userMessage'' \<mapsto> ''Q1''] ''userMessage'' = Some ''Q1''
      \<and> ''Q1'' \<noteq> [])
   \<and> includes_str (generateRtlCss [''message'' \<mapsto> ''XYZ999'', ''userMessage'' \<mapsto> ''Q1''])
        (''.'' @ ''userMessage'' @ ''_'' @ ''Q1'')
   \<and> (''userMessage'' \<in> set synth_keys \<and> [''message'' \<mapsto> ''XYZ999''] ''userMessage'' = None
      \<and> ''userMessage'' \<noteq> ''message'')
   \<and> includes_str (generateRtlCss [''message'' \<mapsto> ''XYZ999'']) (fallback ''userMessage'')"
proof -
  have h1: "''userMessage'' \<in> set synth_keys
      \<and> [''message'' \<mapsto> ''XYZ999'', ''userMessage'' \<mapsto> ''Q1''] ''userMessage'' = Some ''Q1''
      \<and> ''Q1'' \<noteq> []"
    by (simp add: synth_keys_def)
  have h2: "''userMessage'' \<in> set synth_keys \<and> [''message'' \<mapsto> ''XYZ999''] ''userMessage'' = None
      \<and> ''userMessage'' \<noteq> ''message''"
    by (simp add: synth_keys_def)
  note t1 = selector_fallback_policy
    [where key = "''userMessage''" and h = "''Q1''"
       and m = "[''message'' \<mapsto> ''XYZ999'', ''userMessage'' \<mapsto> ''Q1'']"]
  note t2 = selector_fallback_policy
    [where key = "''userMessage''" and h = "''Q1''" and m = "[''message'' \<mapsto> ''XYZ999'']"]
  show ?thesis
    using h1 h2 t1 t2 by blast
qed

text \<open>
  The resolver's list has six more keys, which \<open>generateRtlCss\<close> never reads: no selector
  of either kind is emitted for them.
\<close>

theorem unused_key_counterexample:
  "''chatContainer'' \<in> set patterns
   \<and> [''message'' \<mapsto> ''XYZ999''] ''chatContainer'' = None
   \<and> \<not> includes_str (generateRtlCss [''message'' \<mapsto> ''XYZ999'']) (fallback ''chatContainer'')"
proof -
  have p: "nl \<notin> set (fallback ''chatContainer'')" "fallback ''chatContainer'' \<noteq> []"
    by (simp_all add: fallback_def)
  have "sum_list (map (countOcc (fallback ''chatContainer'')) (rtl_lines [''message'' \<mapsto> ''XYZ999''])) = 0"
    by (simp add: rtl_lines_def Let_def selector_def fallback_def PATCH_START_def PATCH_END_def)
  then have "countOcc (fallback ''chatContainer'') (generateRtlCss [''message'' \<mapsto> ''XYZ999'']) = 0"
    unfolding generateRtlCss_def countOcc_join [OF p] .
  then show ?thesis
    by (simp add: includes_str_iff patterns_def)
qed

section \<open>Determinism\<close>

lemma selector_cong: "m key = m' key \<Longrightarrow> selector m key = selector m' key"
  by (simp add: selector_def)

text \<open>
  C8: equal texts give equal mappings, each key being resolved from the text alone by its
  own search, and two mappings that agree on the keys \<open>generateRtlCss\<close> reads (equal
  mappings in particular) give the same fragment.
\<close>

theorem resolution_and_synthesis_deterministic:
  "(s = s' \<longrightarrow> extractClassMap s = extractClassMap s')
   \<and> (\<forall>k. extractClassMap s k = (if k \<in> set patterns then regex_exec k s else None))
   \<and> ((\<forall>k\<in>set synth_keys. m k = m' k) \<longrightarrow> generateRtlCss m = generateRtlCss m')"
proof (intro conjI impI allI)
  assume "s = s'"
  then show "extractClassMap s = extractClassMap s'" by simp
next
  fix k
  show "extractClassMap s k = (if k \<in> set patterns then regex_exec k s else None)"
    by (rule extractClassMap_apply)
next
  assume a: "\<forall>k\<in>set synth_keys. m k = m' k"
  have "\<forall>k\<in>set synth_keys. selector m k = selector m' k"
    using a selector_cong by blast
  then have "rtl_lines m = rtl_lines m'"
    by (simp add: synth_keys_def rtl_lines_def)
  then show "generateRtlCss m = generateRtlCss m'"
    by (simp add: generateRtlCss_def)
qed

theorem resolution_and_synthesis_deterministic_witness:
  "''.message_A{}'' = ''.message_A{}''
   \<and> list_all
        (\<lambda>k. [''message'' \<mapsto> ''A''] k = [''message'' \<mapsto> ''A'', ''chatContainer'' \<mapsto> ''B''] k)
        synth_keys
   \<and> extractClassMap ''.message_A{}'' = extractClassMap ''.message_A{}''
   \<and> generateRtlCss [''message'' \<mapsto> ''A'']
       = generateRtlCss [''message'' \<mapsto> ''A'', ''chatContainer'' \<mapsto> ''B'']"
proof -
  have h: "\<forall>k\<in>set synth_keys.
        [''message'' \<mapsto> ''A''] k = [''message'' \<mapsto> ''A'', ''chatContainer'' \<mapsto> ''B''] k"
    by (simp add: synth_keys_def)
  note t = resolution_and_synthesis_deterministic
    [where s = "''.message_A{}''" and s' = "''.message_A{}''" and m = "[''message'' \<mapsto> ''A'']"
       and m' = "[''message'' \<mapsto> ''A'', ''chatContainer'' \<mapsto> ''B'']"]
  show ?thesis
    using h t unfolding list_all_iff by blast
qed

end
